theory Spec2Isabelle
  imports Main
begin

section \<open>Values of the solver\<close>

text \<open>
  The solver (\<^verbatim>\<open>src/solver.js\<close>) works on JavaScript arrays of numbers. A piece type
  ("icon index") is an integer; the empty slot of a board is the number \<open>-1\<close>. Integers
  are modelled by \<^typ>\<open>int\<close>: the piece types of the game are small, far inside the range
  where a JavaScript number is an exact integer and prints in decimal.

  Reading an array out of range gives \<^verbatim>\<open>undefined\<close>, and writing past its end leaves
  holes; both can happen in \<^verbatim>\<open>beamSearchSolve\<close> when the collaborator returns a
  position outside the board, so both are values of the model: a tray entry is a number or
  \<^verbatim>\<open>undefined\<close>, and a board cell is a tray entry or a hole (\<open>None\<close>).
\<close>

datatype icon = Icon int | Undef

type_synonym cell = "icon option"

subsection \<open>Array primitives\<close>

text \<open>\<^verbatim>\<open>arr.splice(idx, 1)\<close>: removes the element at \<open>idx\<close>, nothing when out of range.\<close>

definition splice1 :: "nat \<Rightarrow> 'a list \<Rightarrow> 'a list" where
  "splice1 idx xs = take idx xs @ drop (Suc idx) xs"

text \<open>\<^verbatim>\<open>board[i]\<close>: a hole and an index past the end both read as \<^verbatim>\<open>undefined\<close>.\<close>

definition board_get :: "cell list \<Rightarrow> nat \<Rightarrow> icon" where
  "board_get b i =
     (if i < length b then (case b ! i of None \<Rightarrow> Undef | Some v \<Rightarrow> v) else Undef)"

text \<open>\<^verbatim>\<open>[...board]\<close>: the iterator yields \<^verbatim>\<open>undefined\<close> for a hole, so the copy has none.\<close>

definition spread :: "cell list \<Rightarrow> cell list" where
  "spread b = map (\<lambda>c. case c of None \<Rightarrow> Some Undef | Some v \<Rightarrow> Some v) b"

text \<open>\<^verbatim>\<open>board[i] = v\<close>: past the end the array grows, the cells in between are holes.\<close>

definition board_set :: "cell list \<Rightarrow> nat \<Rightarrow> icon \<Rightarrow> cell list" where
  "board_set b i v =
     (if i < length b then b[i := Some v]
      else b @ replicate (i - length b) None @ [Some v])"

text \<open>
  \<^verbatim>\<open>board.filter(iconIdx => iconIdx !== -1).length\<close>: \<^verbatim>\<open>filter\<close> skips holes, and
  \<^verbatim>\<open>undefined !== -1\<close> holds.
\<close>

definition remaining_count :: "cell list \<Rightarrow> nat" where
  "remaining_count b = length (filter (\<lambda>c. c \<noteq> None \<and> c \<noteq> Some (Icon (- 1))) b)"

section \<open>Resolution engine: \<^verbatim>\<open>resolveTrayTriples\<close>\<close>

text \<open>
  \<^verbatim>\<open>iconCounts[iconIdx]\<close> after the \<^verbatim>\<open>forEach\<close>: the indices at which the tray holds
  \<open>k\<close>, in ascending order (the empty list stands for an absent key).
\<close>

definition iconCounts :: "icon list \<Rightarrow> icon \<Rightarrow> nat list" where
  "iconCounts t k = filter (\<lambda>i. t ! i = k) [0..<length t]"

text \<open>
  The keys of the object \<^verbatim>\<open>iconCounts\<close> in the order \<^verbatim>\<open>for ... in\<close> visits them. A key
  is the string of the tray entry. ECMAScript enumerates the keys that are array indices
  (the decimal strings of \<open>0 .. 2^32 - 2\<close>) first, in ascending numeric order, and then
  every other string key (a negative number, a number from \<open>2^32 - 1\<close> on,
  \<^verbatim>\<open>"undefined"\<close>) in the order of its creation, which is the order of first occurrence
  in the tray.
\<close>

definition is_array_index :: "icon \<Rightarrow> bool" where
  "is_array_index k = (case k of Icon n \<Rightarrow> 0 \<le> n \<and> n < 4294967295 | Undef \<Rightarrow> False)"

definition index_keys :: "icon list \<Rightarrow> int list" where
  "index_keys t =
     sort (remdups (concat (map (\<lambda>k. case k of
        Icon n \<Rightarrow> if 0 \<le> n \<and> n < 4294967295 then [n] else [] | Undef \<Rightarrow> []) t)))"

definition string_keys :: "icon list \<Rightarrow> icon list" where
  "string_keys t = rev (remdups (rev (filter (\<lambda>k. \<not> is_array_index k) t)))"

definition own_keys :: "icon list \<Rightarrow> icon list" where
  "own_keys t = map Icon (index_keys t) @ string_keys t"

text \<open>The \<^verbatim>\<open>for ... in\<close> loop: the first key, in that order, with three occurrences or more.\<close>

definition first_triple :: "icon list \<Rightarrow> icon option" where
  "first_triple t = find (\<lambda>k. 3 \<le> length (iconCounts t k)) (own_keys t)"

text \<open>
  \<^verbatim>\<open>parseInt(iconIdx, 10)\<close> of a key: the number back, and \<^verbatim>\<open>NaN\<close> (here \<open>None\<close>)
  for the key \<^verbatim>\<open>"undefined"\<close>.
\<close>

definition parseInt :: "icon \<Rightarrow> int option" where
  "parseInt k = (case k of Icon n \<Rightarrow> Some n | Undef \<Rightarrow> None)"

text \<open>
  One clearing pass on the tray: \<^verbatim>\<open>slice(0, 3)\<close> of the occurrences, sorted descending
  by \<^verbatim>\<open>sort((a, b) => b - a)\<close>, and one \<^verbatim>\<open>splice\<close> for each.
\<close>

definition clear_triple :: "icon list \<Rightarrow> icon \<Rightarrow> icon list" where
  "clear_triple t k = fold splice1 (rev (sort (take 3 (iconCounts t k)))) t"

text \<open>
  The result object \<^verbatim>\<open>{ tray, clearedCount, clearedIcons }\<close>. As for the nodes below, the
  type of the array field is a parameter: the tray by value here, by reference in the last
  section.
\<close>

record 't gresolved =
  res_tray :: 't
  clearedCount :: nat
  clearedIcons :: "int option list"

type_synonym resolved = "icon list gresolved"

lemma length_fold_splice1:
  "sorted_wrt (>) ds \<Longrightarrow> \<forall>i\<in>set ds. i < length xs \<Longrightarrow>
   length (fold splice1 ds xs) = length xs - length ds"
proof (induction ds arbitrary: xs)
  case Nil
  then show ?case by simp
next
  case (Cons d ds)
  have d: "d < length xs" using Cons.prems(2) by simp
  have len: "length (splice1 d xs) = length xs - 1"
    using d by (simp add: splice1_def)
  have "\<forall>i\<in>set ds. i < length (splice1 d xs)"
  proof
    fix i assume "i \<in> set ds"
    then have "i < d" using Cons.prems(1) by auto
    then show "i < length (splice1 d xs)" using d len by simp
  qed
  moreover have "sorted_wrt (>) ds" using Cons.prems(1) by simp
  ultimately have "length (fold splice1 ds (splice1 d xs)) = length (splice1 d xs) - length ds"
    by (simp add: Cons.IH)
  then show ?case using len by simp
qed

lemma iconCounts_sorted: "sorted (iconCounts t k)"
  by (simp add: iconCounts_def sorted_wrt_filter)

lemma iconCounts_distinct: "distinct (iconCounts t k)"
  by (simp add: iconCounts_def)

lemma iconCounts_bound: "i \<in> set (iconCounts t k) \<Longrightarrow> i < length t"
  by (simp add: iconCounts_def)

lemma length_clear_triple:
  assumes "3 \<le> length (iconCounts t k)"
  shows "length (clear_triple t k) + 3 = length t"
proof -
  let ?ds = "rev (sort (take 3 (iconCounts t k)))"
  have srt: "sorted (take 3 (iconCounts t k))"
    by (simp add: iconCounts_sorted sorted_wrt_take)
  have dst: "distinct (take 3 (iconCounts t k))"
    by (simp add: iconCounts_distinct)
  have eq: "?ds = rev (take 3 (iconCounts t k))"
    using srt by (simp add: sorted_sort_id)
  have "sorted_wrt (<) (take 3 (iconCounts t k))"
    using srt dst by (simp add: strict_sorted_iff)
  then have desc: "sorted_wrt (>) ?ds"
    unfolding eq by (simp add: sorted_wrt_rev)
  have bnd: "\<forall>i\<in>set ?ds. i < length t"
    unfolding eq using iconCounts_bound [of _ t k] by (auto dest: in_set_takeD)
  have l3: "length ?ds = 3" unfolding eq using assms by simp
  have "length (fold splice1 ?ds t) = length t - length ?ds"
    using desc bnd by (rule length_fold_splice1)
  moreover have "3 \<le> length t"
  proof -
    have "length (iconCounts t k) \<le> length [0..<length t]"
      unfolding iconCounts_def by (rule length_filter_le)
    then show ?thesis using assms by simp
  qed
  ultimately show ?thesis using l3 by (simp add: clear_triple_def)
qed

lemma first_triple_Some: "first_triple t = Some k \<Longrightarrow> 3 \<le> length (iconCounts t k)"
  by (auto simp: first_triple_def find_Some_iff)

text \<open>
  The \<^verbatim>\<open>while (changed)\<close> loop, on the copy \<^verbatim>\<open>tray\<close> of the argument: a pass that
  finds no key leaves \<^verbatim>\<open>changed\<close> false and the loop ends.
\<close>

function resolve_loop :: "icon list \<Rightarrow> nat \<Rightarrow> int option list \<Rightarrow> resolved" where
  "resolve_loop t cc ci =
     (case first_triple t of
        None \<Rightarrow> \<lparr>res_tray = t, clearedCount = cc, clearedIcons = ci\<rparr>
      | Some k \<Rightarrow> resolve_loop (clear_triple t k) (cc + 3) (ci @ [parseInt k]))"
  by pat_completeness auto
termination
proof (relation "measure (\<lambda>(t, cc, ci). length t)")
  show "wf (measure (\<lambda>(t, cc, ci). length t))" by simp
next
  fix t :: "icon list" and cc :: nat and ci :: "int option list" and k
  assume "first_triple t = Some k"
  then have "length (clear_triple t k) + 3 = length t"
    by (intro length_clear_triple first_triple_Some)
  then show "((clear_triple t k, cc + 3, ci @ [parseInt k]), (t, cc, ci))
      \<in> measure (\<lambda>(t, cc, ci). length t)"
    by simp
qed

definition resolveTrayTriples :: "icon list \<Rightarrow> resolved" where
  "resolveTrayTriples trayIconIndices = resolve_loop trayIconIndices 0 []"

section \<open>State signature: \<^verbatim>\<open>hashState\<close>\<close>

text \<open>
  \<^verbatim>\<open>board.join(',') + '|' + tray.join(',')\<close>. \<^verbatim>\<open>join\<close> prints a number in decimal and
  prints \<^verbatim>\<open>undefined\<close> and a hole as the empty string.
\<close>

fun digits :: "nat \<Rightarrow> string" where
  "digits n =
     (if n < 10 then [''0123456789'' ! n]
      else digits (n div 10) @ [''0123456789'' ! (n mod 10)])"

definition num_str :: "int \<Rightarrow> string" where
  "num_str n = (if n < 0 then CHR ''-'' # digits (nat (- n)) else digits (nat n))"

definition icon_str :: "icon \<Rightarrow> string" where
  "icon_str k = (case k of Icon n \<Rightarrow> num_str n | Undef \<Rightarrow> [])"

definition cell_str :: "cell \<Rightarrow> string" where
  "cell_str c = (case c of None \<Rightarrow> [] | Some k \<Rightarrow> icon_str k)"

fun join :: "string list \<Rightarrow> string" where
  "join [] = []"
| "join [s] = s"
| "join (s # r # rs) = s @ CHR '','' # join (r # rs)"

definition hashState :: "cell list \<Rightarrow> icon list \<Rightarrow> string" where
  "hashState b t = join (map cell_str b) @ CHR ''|'' # join (map icon_str t)"

section \<open>Heuristic scorer: \<^verbatim>\<open>scoreState\<close>\<close>

text \<open>
  The five additive parts, in the order of the source. \<^verbatim>\<open>Object.values(iconCounts)\<close>
  has one count for each distinct entry of the tray; \<^verbatim>\<open>new Set(newIcons).size\<close> counts
  the distinct entries of the tray that \<^verbatim>\<open>prevTray\<close> does not hold. The board argument
  is not read.
\<close>

definition scoreState :: "cell list \<Rightarrow> icon list \<Rightarrow> icon list \<Rightarrow> int \<Rightarrow> int \<Rightarrow> int" where
  "scoreState b t prevTray prevRemaining newRemaining =
     (let cleared = int (length prevTray) - int (length t);
          score1 = (if cleared \<ge> 3 then 100 * (cleared div 3) else 0);
          score2 = score1 + 12 * int (length (filter (\<lambda>k. count_list t k = 2) (remdups t)));
          newIcons = filter (\<lambda>iconIdx. iconIdx \<notin> set prevTray) t;
          score3 = score2 - 8 * int (length (remdups newIcons));
          score4 = score3 - 3 * int (length t);
          tilesRemoved = prevRemaining - newRemaining
      in score4 + tilesRemoved * 5)"

section \<open>Beam search driver: \<^verbatim>\<open>beamSearchSolve\<close>\<close>

text \<open>
  A search node. Its board is an array; the type of the \<open>board\<close> field is a parameter so
  that the same record serves with the board held by value (here) and by reference (in the
  last section).
\<close>

record 'b gnode =
  board :: 'b
  tray :: "icon list"
  score :: int
  moves :: "nat list"
  depth :: nat
  hash :: string

type_synonym node = "cell list gnode"

text \<open>
  The result. \<^verbatim>\<open>bestScore\<close> of a failure with an empty frontier is \<^verbatim>\<open>-Infinity\<close>, here
  \<open>None\<close>; the depth is reported by a success only. \<^verbatim>\<open>timeMs\<close> is wall-clock time and
  is left out.
\<close>

record stats =
  expansionsUsed :: nat
  bestScore :: "int option"
  stats_beamWidth :: nat
  stats_depth :: "nat option"

datatype result = Solvable "nat list" stats | Unsolvable stats

text \<open>
  What the loops of one depth level change: the \<^verbatim>\<open>candidates\<close> array, the \<^verbatim>\<open>visited\<close>
  map (signature to score and tray length) and the \<^verbatim>\<open>expansions\<close> counter.
\<close>

record 'b gstate =
  candidates :: "'b gnode list"
  visited :: "string \<rightharpoonup> int \<times> nat"
  expansions :: nat

type_synonym search_state = "cell list gstate"

text \<open>
  The body of the loop over \<^verbatim>\<open>clickableSlots\<close>, from \<^verbatim>\<open>expansions++\<close> on: every
  \<^verbatim>\<open>continue\<close> returns the state with the counter advanced and nothing else changed.
\<close>

definition expand_slot :: "node \<Rightarrow> nat \<Rightarrow> nat \<Rightarrow> nat \<Rightarrow> search_state \<Rightarrow> search_state" where
  "expand_slot nd remaining d slotIdx st0 =
     (let st = st0\<lparr>expansions := expansions st0 + 1\<rparr>;
          iconIdx = board_get (board nd) slotIdx
      in if iconIdx = Icon (- 1) then st
      else
        let newBoard = board_set (spread (board nd)) slotIdx (Icon (- 1));
            newTray = tray nd @ [iconIdx];
            res = resolveTrayTriples newTray
        in if length (res_tray res) > 7 then st
        else
          let newRemaining = remaining_count newBoard;
              newScore = score nd +
                scoreState newBoard (res_tray res) (tray nd) (int remaining) (int newRemaining);
              newMoves = moves nd @ [slotIdx];
              newHash = hashState newBoard (res_tray res);
              pruned = (case visited st newHash of
                  None \<Rightarrow> False
                | Some (vscore, vtrayLen) \<Rightarrow>
                    vscore \<ge> newScore \<and> vtrayLen \<le> length (res_tray res))
          in if pruned then st
          else st\<lparr>visited := (visited st)(newHash \<mapsto> (newScore, length (res_tray res))),
                  candidates := candidates st @
                    [\<lparr>board = newBoard, tray = res_tray res, score = newScore,
                      moves = newMoves, depth = d + 1, hash = newHash\<rparr>]\<rparr>)"

text \<open>The loop over \<^verbatim>\<open>clickableSlots\<close>, with its budget check before each slot.\<close>

fun expand_slots :: "nat \<Rightarrow> node \<Rightarrow> nat \<Rightarrow> nat \<Rightarrow> nat list \<Rightarrow> search_state \<Rightarrow> search_state" where
  "expand_slots maxExp nd remaining d [] st = st"
| "expand_slots maxExp nd remaining d (slotIdx # slots) st =
     (if expansions st \<ge> maxExp then st
      else expand_slots maxExp nd remaining d slots (expand_slot nd remaining d slotIdx st))"

text \<open>
  The loop over the nodes of the frontier: the budget check, then the win check, then the
  expansion. \<open>Inl\<close> is the \<^verbatim>\<open>return\<close> from inside the loop.
\<close>

definition solved :: "node \<Rightarrow> bool" where
  "solved nd = (remaining_count (board nd) = 0 \<and> length (tray nd) = 0)"

fun expand_beam ::
  "nat \<Rightarrow> nat \<Rightarrow> (cell list \<Rightarrow> nat list) \<Rightarrow> nat \<Rightarrow> node list \<Rightarrow> search_state \<Rightarrow> result + search_state"
where
  "expand_beam bw maxExp getClickableSlots d [] st = Inr st"
| "expand_beam bw maxExp getClickableSlots d (nd # nds) st =
     (if expansions st \<ge> maxExp then Inr st
      else if solved nd then
        Inl (Solvable (moves nd)
          \<lparr>expansionsUsed = expansions st, bestScore = Some (score nd),
           stats_beamWidth = bw, stats_depth = Some d\<rparr>)
      else expand_beam bw maxExp getClickableSlots d nds
        (expand_slots maxExp nd (remaining_count (board nd)) d (getClickableSlots (board nd)) st))"

text \<open>
  One depth level: the frontier is expanded into fresh \<^verbatim>\<open>candidates\<close>, which are sorted
  by score, descending (\<^verbatim>\<open>Array.prototype.sort\<close> is stable, as \<^const>\<open>sort_key\<close> is), and
  cut to \<^verbatim>\<open>beamWidth\<close>. The frontier travels with the \<^verbatim>\<open>visited\<close> map and the counter.
\<close>

type_synonym frontier = "node list \<times> (string \<rightharpoonup> int \<times> nat) \<times> nat"

definition level ::
  "nat \<Rightarrow> nat \<Rightarrow> (cell list \<Rightarrow> nat list) \<Rightarrow> nat \<Rightarrow> frontier \<Rightarrow> result + frontier"
where
  "level bw maxExp getClickableSlots d fr =
     (case fr of (beam, vis, ex) \<Rightarrow>
        (case expand_beam bw maxExp getClickableSlots d beam
                \<lparr>candidates = [], visited = vis, expansions = ex\<rparr> of
           Inl r \<Rightarrow> Inl r
         | Inr st \<Rightarrow>
             Inr (take bw (sort_key (\<lambda>n. - score n) (candidates st)),
                  visited st, expansions st)))"

text \<open>The \<^verbatim>\<open>for (depth ...)\<close> loop and the failure result after it.\<close>

function search_loop ::
  "nat \<Rightarrow> nat \<Rightarrow> nat \<Rightarrow> (cell list \<Rightarrow> nat list) \<Rightarrow> nat \<Rightarrow> frontier \<Rightarrow> result"
where
  "search_loop bw maxExp maxD getClickableSlots d fr =
     (if d < maxD \<and> fst fr \<noteq> [] then
        (case level bw maxExp getClickableSlots d fr of
           Inl r \<Rightarrow> r
         | Inr fr' \<Rightarrow> search_loop bw maxExp maxD getClickableSlots (d + 1) fr')
      else
        Unsolvable
          \<lparr>expansionsUsed = snd (snd fr),
           bestScore = (if fst fr \<noteq> [] then Some (score (hd (fst fr))) else None),
           stats_beamWidth = bw, stats_depth = None\<rparr>)"
  by pat_completeness auto
termination
  by (relation "measure (\<lambda>(bw, maxExp, maxD, g, d, fr). maxD - d)") auto

text \<open>
  The configuration: each option is absent (\<open>None\<close>) or a number; \<^verbatim>\<open>params.x || DEFAULT\<close>
  takes the default for an absent and for a zero option.
\<close>

record params =
  beamWidth :: "nat option"
  maxExpansions :: "nat option"
  maxDepth :: "nat option"

definition SOLVER_BEAM_WIDTH :: nat where "SOLVER_BEAM_WIDTH = 100"
definition SOLVER_MAX_EXPANSIONS :: nat where "SOLVER_MAX_EXPANSIONS = 5000"
definition SOLVER_MAX_DEPTH :: nat where "SOLVER_MAX_DEPTH = 200"

definition or_default :: "nat option \<Rightarrow> nat \<Rightarrow> nat" where
  "or_default v dflt = (case v of None \<Rightarrow> dflt | Some n \<Rightarrow> if n = 0 then dflt else n)"

definition initialNode :: "cell list \<Rightarrow> node" where
  "initialNode initialBoard =
     \<lparr>board = spread initialBoard, tray = [], score = 0, moves = [], depth = 0,
      hash = hashState initialBoard []\<rparr>"

definition initial_frontier :: "cell list \<Rightarrow> frontier" where
  "initial_frontier initialBoard =
     ([initialNode initialBoard], [hash (initialNode initialBoard) \<mapsto> (0, 0)], 0)"

definition beamSearchSolve :: "cell list \<Rightarrow> (cell list \<Rightarrow> nat list) \<Rightarrow> params \<Rightarrow> result" where
  "beamSearchSolve initialBoard getClickableSlots ps =
     search_loop (or_default (beamWidth ps) SOLVER_BEAM_WIDTH)
       (or_default (maxExpansions ps) SOLVER_MAX_EXPANSIONS)
       (or_default (maxDepth ps) SOLVER_MAX_DEPTH)
       getClickableSlots 0 (initial_frontier initialBoard)"

definition isSolvable :: "cell list \<Rightarrow> (cell list \<Rightarrow> nat list) \<Rightarrow> params \<Rightarrow> result" where
  "isSolvable initialBoardAssignment getClickableSlotIndices ps =
     beamSearchSolve initialBoardAssignment getClickableSlotIndices ps"

section \<open>The resolution engine against its contract\<close>

subsection \<open>The contract, in the specification's words\<close>

text \<open>Removing the \<open>n\<close> lowest-index occurrences of \<open>k\<close> from a tray.\<close>

fun remove_first :: "nat \<Rightarrow> 'a \<Rightarrow> 'a list \<Rightarrow> 'a list" where
  "remove_first 0 k xs = xs"
| "remove_first (Suc n) k [] = []"
| "remove_first (Suc n) k (x # xs) =
     (if x = k then remove_first n k xs else x # remove_first (Suc n) k xs)"

text \<open>
  A run of the contract clears the piece types \<open>ks\<close> one after the other, each holding
  three occurrences or more when its turn comes, and stops at a tray in which no piece
  type qualifies; the result is that tray. Any other sequence is no run (\<open>None\<close>).
\<close>

fun resolution_run :: "icon list \<Rightarrow> icon list \<Rightarrow> icon list option" where
  "resolution_run t [] = (if list_ex (\<lambda>k. 3 \<le> count_list t k) t then None else Some t)"
| "resolution_run t (k # ks) =
     (if 3 \<le> count_list t k then resolution_run (remove_first 3 k t) ks else None)"

text \<open>The clearing passes of the \<^verbatim>\<open>while\<close> loop, counted: the recursion of \<^const>\<open>resolve_loop\<close>.\<close>

function resolve_passes :: "icon list \<Rightarrow> nat" where
  "resolve_passes t =
     (case first_triple t of None \<Rightarrow> 0 | Some k \<Rightarrow> Suc (resolve_passes (clear_triple t k)))"
  by pat_completeness auto
termination
proof (relation "measure length")
  show "wf (measure (length :: icon list \<Rightarrow> nat))" by simp
next
  fix t :: "icon list" and k
  assume "first_triple t = Some k"
  then have "length (clear_triple t k) + 3 = length t"
    by (intro length_clear_triple first_triple_Some)
  then show "(clear_triple t k, t) \<in> measure length" by simp
qed

text \<open>Adding to the two accumulators of the loop.\<close>

definition shift_resolved :: "nat \<Rightarrow> int option list \<Rightarrow> resolved \<Rightarrow> resolved" where
  "shift_resolved cc ci r =
     \<lparr>res_tray = res_tray r, clearedCount = cc + clearedCount r, clearedIcons = ci @ clearedIcons r\<rparr>"

subsection \<open>One pass\<close>

lemma iconCounts_Cons:
  "iconCounts (x # xs) k = (if x = k then [0] else []) @ map Suc (iconCounts xs k)"
proof -
  have "[0..<length (x # xs)] = 0 # map Suc [0..<length xs]"
    by (simp add: upt_conv_Cons map_Suc_upt del: upt_Suc)
  then show ?thesis
    by (simp add: iconCounts_def filter_map comp_def)
qed

lemma length_iconCounts: "length (iconCounts t k) = count_list t k"
proof (induction t)
  case Nil
  show ?case by (simp add: iconCounts_def)
next
  case (Cons x xs)
  then show ?case by (simp add: iconCounts_Cons)
qed

lemma foldr_splice1_Suc:
  "foldr splice1 (map Suc js) (x # xs) = x # foldr splice1 js xs"
  by (induction js) (simp_all add: splice1_def)

lemma foldr_splice1_remove_first:
  "foldr splice1 (take n (iconCounts t k)) t = remove_first n k t"
proof (induction t arbitrary: n)
  case Nil
  show ?case by (cases n) (simp_all add: iconCounts_def)
next
  case (Cons x xs)
  show ?case
  proof (cases n)
    case 0
    then show ?thesis by simp
  next
    case (Suc m)
    show ?thesis
    proof (cases "x = k")
      case True
      have "foldr splice1 (take n (iconCounts (x # xs) k)) (x # xs)
          = splice1 0 (foldr splice1 (map Suc (take m (iconCounts xs k))) (x # xs))"
        using True Suc by (simp add: iconCounts_Cons take_map)
      also have "\<dots> = foldr splice1 (take m (iconCounts xs k)) xs"
        by (simp add: foldr_splice1_Suc splice1_def)
      finally show ?thesis using True Suc Cons.IH by simp
    next
      case False
      then show ?thesis using Suc Cons.IH [of n]
        by (simp add: iconCounts_Cons take_map foldr_splice1_Suc)
    qed
  qed
qed

lemma clear_triple_remove_first: "clear_triple t k = remove_first 3 k t"
proof -
  have "sorted (take 3 (iconCounts t k))"
    by (simp add: iconCounts_sorted sorted_wrt_take)
  then have "rev (sort (take 3 (iconCounts t k))) = rev (take 3 (iconCounts t k))"
    by (simp add: sorted_sort_id)
  then show ?thesis
    by (simp add: clear_triple_def foldr_conv_fold [symmetric] foldr_splice1_remove_first)
qed

lemma set_index_keys: "set (index_keys t) = {n. Icon n \<in> set t \<and> is_array_index (Icon n)}"
  by (auto simp: index_keys_def is_array_index_def split: icon.splits if_splits)

lemma set_own_keys: "set (own_keys t) = set t"
proof -
  have "Icon ` set (index_keys t) = {k \<in> set t. is_array_index k}"
  proof (intro equalityI subsetI)
    fix k assume "k \<in> Icon ` set (index_keys t)"
    then show "k \<in> {k \<in> set t. is_array_index k}"
      by (auto simp: set_index_keys)
  next
    fix k assume k: "k \<in> {k \<in> set t. is_array_index k}"
    then obtain n where "k = Icon n"
      by (cases k) (auto simp: is_array_index_def)
    then show "k \<in> Icon ` set (index_keys t)"
      using k by (simp add: set_index_keys)
  qed
  then show ?thesis
    unfolding own_keys_def string_keys_def by auto
qed

lemma first_triple_None_iff: "first_triple t = None \<longleftrightarrow> (\<forall>k. count_list t k < 3)"
proof -
  have "first_triple t = None \<longleftrightarrow> (\<forall>k\<in>set t. count_list t k < 3)"
    by (auto simp: first_triple_def find_None_iff set_own_keys length_iconCounts)
  also have "\<dots> \<longleftrightarrow> (\<forall>k. count_list t k < 3)"
    by (metis count_notin zero_less_numeral)
  finally show ?thesis .
qed

lemma first_triple_count: "first_triple t = Some k \<Longrightarrow> 3 \<le> count_list t k"
  using first_triple_Some [of t k] by (simp add: length_iconCounts)

subsection \<open>The loop\<close>

lemma resolve_loop_acc:
  "resolve_loop t cc ci = shift_resolved cc ci (resolve_loop t 0 [])"
proof (induction t arbitrary: cc ci rule: length_induct)
  case (1 t)
  show ?case
  proof (cases "first_triple t")
    case None
    then show ?thesis by (simp add: shift_resolved_def)
  next
    case (Some k)
    have less: "length (clear_triple t k) < length t"
      using length_clear_triple [OF first_triple_Some [OF Some]] by simp
    have a: "resolve_loop (clear_triple t k) (cc + 3) (ci @ [parseInt k])
        = shift_resolved (cc + 3) (ci @ [parseInt k]) (resolve_loop (clear_triple t k) 0 [])"
      using 1 less by blast
    have b: "resolve_loop (clear_triple t k) 3 [parseInt k]
        = shift_resolved 3 [parseInt k] (resolve_loop (clear_triple t k) 0 [])"
      using 1 less by blast
    have "resolve_loop t cc ci = resolve_loop (clear_triple t k) (cc + 3) (ci @ [parseInt k])"
      using Some by simp
    moreover have "resolve_loop t 0 [] = resolve_loop (clear_triple t k) 3 [parseInt k]"
      using Some by simp
    ultimately show ?thesis
      by (simp add: a b shift_resolved_def del: resolve_loop.simps)
  qed
qed

lemma resolveTrayTriples_None:
  "first_triple t = None \<Longrightarrow>
   resolveTrayTriples t = \<lparr>res_tray = t, clearedCount = 0, clearedIcons = []\<rparr>"
  by (simp add: resolveTrayTriples_def)

lemma resolveTrayTriples_Some:
  "first_triple t = Some k \<Longrightarrow>
   resolveTrayTriples t =
     shift_resolved 3 [parseInt k] (resolveTrayTriples (remove_first 3 k t))"
  unfolding resolveTrayTriples_def
  using resolve_loop_acc [of "clear_triple t k" 3 "[parseInt k]"]
  by (simp add: clear_triple_remove_first)

lemma list_ex_triple: "list_ex (\<lambda>k. 3 \<le> count_list t k) t \<longleftrightarrow> first_triple t \<noteq> None"
proof -
  have "list_ex (\<lambda>k. 3 \<le> count_list t k) t \<longleftrightarrow> \<not> (\<forall>k\<in>set t. count_list t k < 3)"
    by (auto simp: list_ex_iff not_less)
  also have "\<dots> \<longleftrightarrow> \<not> (\<forall>k. count_list t k < 3)"
    by (metis count_notin zero_less_numeral)
  finally show ?thesis by (simp add: first_triple_None_iff)
qed

lemma resolution_run_resolveTrayTriples:
  "\<exists>ks. resolution_run t ks = Some (res_tray (resolveTrayTriples t)) \<and>
        clearedIcons (resolveTrayTriples t) = map parseInt ks \<and>
        clearedCount (resolveTrayTriples t) = 3 * length ks"
proof (induction t rule: length_induct)
  case (1 t)
  show ?case
  proof (cases "first_triple t")
    case None
    then have "resolution_run t [] = Some t"
      using list_ex_triple [of t] by simp
    then show ?thesis
      using resolveTrayTriples_None [OF None] by (intro exI [of _ "[]"]) simp
  next
    case (Some k)
    let ?t' = "remove_first 3 k t"
    have "length ?t' < length t"
      using length_clear_triple [OF first_triple_Some [OF Some]]
      by (simp add: clear_triple_remove_first)
    then obtain ks where ks: "resolution_run ?t' ks = Some (res_tray (resolveTrayTriples ?t'))"
      "clearedIcons (resolveTrayTriples ?t') = map parseInt ks"
      "clearedCount (resolveTrayTriples ?t') = 3 * length ks"
      using 1 by blast
    have "resolution_run t (k # ks) = Some (res_tray (resolveTrayTriples t))"
      using ks(1) first_triple_count [OF Some] resolveTrayTriples_Some [OF Some]
      by (simp add: shift_resolved_def)
    moreover have "clearedIcons (resolveTrayTriples t) = map parseInt (k # ks)"
      using ks(2) resolveTrayTriples_Some [OF Some] by (simp add: shift_resolved_def)
    moreover have "clearedCount (resolveTrayTriples t) = 3 * length (k # ks)"
      using ks(3) resolveTrayTriples_Some [OF Some] by (simp add: shift_resolved_def)
    ultimately show ?thesis by blast
  qed
qed


lemma first_triple_three: "first_triple [k, k, k] = Some k"
  by (cases k)
    (simp_all add: first_triple_def own_keys_def index_keys_def string_keys_def
      is_array_index_def iconCounts_def upt_rec)

lemma first_triple_Nil: "first_triple [] = None"
  by (simp add: first_triple_None_iff)

lemma first_triple_single: "first_triple [k] = None"
  by (simp add: first_triple_None_iff)

lemma resolve_three:
  "resolveTrayTriples [k, k, k] = \<lparr>res_tray = [], clearedCount = 3, clearedIcons = [parseInt k]\<rparr>"
  by (simp add: resolveTrayTriples_Some [OF first_triple_three]
      resolveTrayTriples_None [OF first_triple_Nil] shift_resolved_def numeral_3_eq_3)

lemma first_triple_four: "first_triple [k, k, k, k] = Some k"
  by (cases k)
    (simp_all add: first_triple_def own_keys_def index_keys_def string_keys_def
      is_array_index_def iconCounts_def upt_rec)

lemma resolve_four:
  "resolveTrayTriples [k, k, k, k] = \<lparr>res_tray = [k], clearedCount = 3, clearedIcons = [parseInt k]\<rparr>"
  by (simp add: resolveTrayTriples_Some [OF first_triple_four]
      resolveTrayTriples_None [OF first_triple_single] shift_resolved_def numeral_3_eq_3)

lemma resolve_alternating:
  "res_tray (resolveTrayTriples [a, b, a, b, a, b]) = [] \<and>
   clearedCount (resolveTrayTriples [a, b, a, b, a, b]) = 6"
proof -
  let ?t = "[a, b, a, b, a, b]"
  have "\<not> count_list ?t a < 3" by simp
  then have "first_triple ?t \<noteq> None"
    unfolding first_triple_None_iff by blast
  then obtain k where k: "first_triple ?t = Some k" by blast
  then have "3 \<le> count_list ?t k" by (rule first_triple_count)
  then have "k = a \<or> k = b" by (auto split: if_splits)
  then have "remove_first 3 k ?t = [a, a, a] \<or> remove_first 3 k ?t = [b, b, b]"
    by (auto simp: numeral_3_eq_3)
  then show ?thesis
    by (auto simp: resolveTrayTriples_Some [OF k] resolve_three shift_resolved_def)
qed

lemma resolve_passes_facts:
  "3 * resolve_passes t + length (res_tray (resolveTrayTriples t)) = length t \<and>
   clearedCount (resolveTrayTriples t) = 3 * resolve_passes t \<and>
   length (clearedIcons (resolveTrayTriples t)) = resolve_passes t"
proof (induction t rule: length_induct)
  case (1 t)
  show ?case
  proof (cases "first_triple t")
    case None
    then show ?thesis by (simp add: resolveTrayTriples_None)
  next
    case (Some k)
    have len: "length (clear_triple t k) + 3 = length t"
      by (intro length_clear_triple first_triple_Some Some)
    then have "length (clear_triple t k) < length t" by simp
    then have ih: "3 * resolve_passes (clear_triple t k)
        + length (res_tray (resolveTrayTriples (clear_triple t k))) = length (clear_triple t k) \<and>
      clearedCount (resolveTrayTriples (clear_triple t k)) = 3 * resolve_passes (clear_triple t k) \<and>
      length (clearedIcons (resolveTrayTriples (clear_triple t k))) = resolve_passes (clear_triple t k)"
      using 1 by blast
    have p: "resolve_passes t = Suc (resolve_passes (clear_triple t k))"
      using Some by simp
    show ?thesis
      using ih len
      by (simp add: p resolveTrayTriples_Some [OF Some] shift_resolved_def
          clear_triple_remove_first [symmetric] del: resolve_passes.simps)
  qed
qed

text \<open>
  Claim C7, as amended. For every tray the engine's result is a run of the contract: it
  clears, one after the other, the three earliest occurrences of a piece type that has
  three or more, until none qualifies, and returns the final tray, three times the number
  of passes as the count, and the cleared types in order. \<open>[A,A,A]\<close> gives the empty
  tray, 3 cleared, cleared types \<open>[A]\<close>; \<open>[A,A,A,A]\<close> gives \<open>[A]\<close>; and
  \<open>[A,B,A,B,A,B]\<close>, where \<open>A\<close> and \<open>B\<close> occur three times each, is cleared
  completely: the empty tray and 6 cleared (adjacency plays no part).
\<close>

theorem resolution_engine_contract:
  "(\<exists>ks. resolution_run t ks = Some (res_tray (resolveTrayTriples t)) \<and>
         clearedIcons (resolveTrayTriples t) = map parseInt ks \<and>
         clearedCount (resolveTrayTriples t) = 3 * length ks) \<and>
   resolveTrayTriples [Icon a, Icon a, Icon a] =
     \<lparr>res_tray = [], clearedCount = 3, clearedIcons = [Some a]\<rparr> \<and>
   res_tray (resolveTrayTriples [Icon a, Icon a, Icon a, Icon a]) = [Icon a] \<and>
   res_tray (resolveTrayTriples [Icon a, Icon b, Icon a, Icon b, Icon a, Icon b]) = [] \<and>
   clearedCount (resolveTrayTriples [Icon a, Icon b, Icon a, Icon b, Icon a, Icon b]) = 6"
  using resolution_run_resolveTrayTriples [of t] resolve_alternating [of "Icon a" "Icon b"]
  by (simp add: resolve_three resolve_four parseInt_def)

text \<open>
  Claim C7 as stated says that \<open>[A,B,A,B,A,B]\<close> is returned unchanged. With \<open>A = 0\<close>
  and \<open>B = 1\<close> the engine returns the empty tray.
\<close>

theorem alternating_tray_counterexample:
  "resolveTrayTriples [Icon 0, Icon 1, Icon 0, Icon 1, Icon 0, Icon 1] =
     \<lparr>res_tray = [], clearedCount = 6, clearedIcons = [Some 0, Some 1]\<rparr> \<and>
   res_tray (resolveTrayTriples [Icon 0, Icon 1, Icon 0, Icon 1, Icon 0, Icon 1])
     \<noteq> [Icon 0, Icon 1, Icon 0, Icon 1, Icon 0, Icon 1]"
  by code_simp

lemma resolve_passes_bound:
  "resolve_passes t \<le> length t div 3 \<and>
   clearedCount (resolveTrayTriples t) = 3 * resolve_passes t \<and>
   length (res_tray (resolveTrayTriples t)) + 3 * resolve_passes t = length t \<and>
   (\<forall>k. first_triple t = Some k \<longrightarrow> length (clear_triple t k) + 3 = length t)"
proof -
  have "3 * resolve_passes t \<le> length t"
    using resolve_passes_facts [of t] by simp
  then have "resolve_passes t \<le> length t div 3" by simp
  moreover have "\<forall>k. first_triple t = Some k \<longrightarrow> length (clear_triple t k) + 3 = length t"
    by (auto intro: length_clear_triple first_triple_Some)
  ultimately show ?thesis
    using resolve_passes_facts [of t] by simp
qed

lemma count_remove_first:
  "count_list (remove_first n k t) j = (if j = k then count_list t k - n else count_list t j)"
proof (induction t arbitrary: n)
  case Nil
  then show ?case by (cases n) simp_all
next
  case (Cons x xs)
  then show ?case by (cases n) auto
qed

lemma resolved_result: "first_triple (res_tray (resolveTrayTriples t)) = None"
proof (induction t rule: length_induct)
  case (1 t)
  show ?case
  proof (cases "first_triple t")
    case None
    then show ?thesis by (simp add: resolveTrayTriples_None)
  next
    case (Some k)
    have "length (remove_first 3 k t) < length t"
      using length_clear_triple [OF first_triple_Some [OF Some]]
      by (simp add: clear_triple_remove_first)
    then show ?thesis using 1 by (simp add: resolveTrayTriples_Some [OF Some] shift_resolved_def)
  qed
qed

text \<open>
  Resolution is idempotent: the tray the engine returns holds no piece type three times,
  and the engine returns it unchanged, with nothing cleared.
\<close>

theorem resolution_idempotent:
  "resolveTrayTriples (res_tray (resolveTrayTriples t)) =
     \<lparr>res_tray = res_tray (resolveTrayTriples t), clearedCount = 0, clearedIcons = []\<rparr>"
  by (rule resolveTrayTriples_None) (rule resolved_result)

subsection \<open>The tie-break\<close>

lemma find_sorted_least:
  "sorted xs \<Longrightarrow> a \<in> set xs \<Longrightarrow> P (Icon a) \<Longrightarrow>
   \<exists>m. find P (map Icon xs @ ys) = Some (Icon m) \<and> P (Icon m) \<and> m \<in> set xs \<and>
       (\<forall>n\<in>set xs. P (Icon n) \<longrightarrow> m \<le> n)"
proof (induction xs)
  case Nil
  then show ?case by simp
next
  case (Cons x xs)
  show ?case
  proof (cases "P (Icon x)")
    case True
    then show ?thesis using Cons.prems(1) by auto
  next
    case False
    then have "a \<in> set xs" using Cons.prems by auto
    moreover have "sorted xs" using Cons.prems(1) by simp
    ultimately obtain m where "find P (map Icon xs @ ys) = Some (Icon m)" "P (Icon m)"
      "m \<in> set xs" "\<forall>n\<in>set xs. P (Icon n) \<longrightarrow> m \<le> n"
      using Cons.IH Cons.prems(3) by blast
    then show ?thesis using False by auto
  qed
qed

text \<open>
  Claim C6. In a tray of piece-type identifiers (numbers from 0 that are array indices, so
  that the object's keys are enumerated in ascending order) in which some piece type has
  three occurrences or more, the pass clears the qualifying type with the smallest
  identifier, wherever it stands in the tray, and the engine then goes on with the tray
  that is left. In particular, when 0 and 2 both qualify, 0 is cleared first.
\<close>

theorem tie_break_smallest_identifier:
  assumes "\<forall>k\<in>set t. is_array_index k" and "3 \<le> count_list t (Icon a)"
  shows "\<exists>m. first_triple t = Some (Icon m) \<and> 3 \<le> count_list t (Icon m) \<and>
      (\<forall>n. 3 \<le> count_list t (Icon n) \<longrightarrow> m \<le> n) \<and>
      res_tray (resolveTrayTriples t) = res_tray (resolveTrayTriples (remove_first 3 (Icon m) t)) \<and>
      clearedCount (resolveTrayTriples t) = 3 + clearedCount (resolveTrayTriples (remove_first 3 (Icon m) t)) \<and>
      clearedIcons (resolveTrayTriples t) = Some m # clearedIcons (resolveTrayTriples (remove_first 3 (Icon m) t))"
proof -
  let ?P = "\<lambda>k. 3 \<le> length (iconCounts t k)"
  have mem: "\<And>n. 3 \<le> count_list t (Icon n) \<Longrightarrow> n \<in> set (index_keys t)"
  proof -
    fix n assume "3 \<le> count_list t (Icon n)"
    then have "Icon n \<in> set t" by (metis count_notin not_numeral_le_zero)
    then show "n \<in> set (index_keys t)" using assms(1) by (simp add: set_index_keys)
  qed
  have "sorted (index_keys t)" by (simp add: index_keys_def)
  moreover have "a \<in> set (index_keys t)" using assms(2) by (rule mem)
  moreover have "?P (Icon a)" using assms(2) by (simp add: length_iconCounts)
  ultimately obtain m where m: "find ?P (map Icon (index_keys t) @ string_keys t) = Some (Icon m)"
    "?P (Icon m)" "\<forall>n\<in>set (index_keys t). ?P (Icon n) \<longrightarrow> m \<le> n"
    using find_sorted_least [of "index_keys t" a ?P "string_keys t"] by blast
  have ft: "first_triple t = Some (Icon m)"
    using m(1) by (simp add: first_triple_def own_keys_def)
  have "\<forall>n. 3 \<le> count_list t (Icon n) \<longrightarrow> m \<le> n"
    using m(3) mem by (simp add: length_iconCounts)
  then show ?thesis
    using ft m(2) resolveTrayTriples_Some [OF ft]
    by (simp add: length_iconCounts shift_resolved_def parseInt_def)
qed

theorem tie_break_smallest_identifier_witness:
  "list_all is_array_index [Icon 2, Icon 0, Icon 2, Icon 0, Icon 2, Icon 0] \<and>
   3 \<le> count_list [Icon 2, Icon 0, Icon 2, Icon 0, Icon 2, Icon 0] (Icon 2) \<and>
   first_triple [Icon 2, Icon 0, Icon 2, Icon 0, Icon 2, Icon 0] = Some (Icon 0) \<and>
   clearedIcons (resolveTrayTriples [Icon 2, Icon 0, Icon 2, Icon 0, Icon 2, Icon 0]) = [Some 0, Some 2]"
proof -
  let ?t = "[Icon 2, Icon 0, Icon 2, Icon 0, Icon 2, Icon 0]"
  have h1: "\<forall>k\<in>set ?t. is_array_index k" by (simp add: is_array_index_def)
  have h2: "3 \<le> count_list ?t (Icon 2)" by simp
  have h3: "3 \<le> count_list ?t (Icon 0)" by simp
  obtain m where m: "first_triple ?t = Some (Icon m)" "3 \<le> count_list ?t (Icon m)"
      "\<forall>n. 3 \<le> count_list ?t (Icon n) \<longrightarrow> m \<le> n"
      "clearedIcons (resolveTrayTriples ?t) = Some m # clearedIcons (resolveTrayTriples (remove_first 3 (Icon m) ?t))"
    using tie_break_smallest_identifier [OF h1 h2] by blast
  have "m \<le> 0" using m(3) h3 by blast
  moreover have "m = 0 \<or> m = 2" using m(2) by (auto split: if_splits)
  ultimately have m0: "m = 0" by auto
  have "clearedIcons (resolveTrayTriples [Icon 2, Icon 2, Icon 2]) = [Some 2]"
    by (simp add: resolve_three parseInt_def)
  then show ?thesis using m(1,4) h1 h2 unfolding m0
    by (simp add: numeral_3_eq_3 list_all_iff)
qed

section \<open>The beam search against its contract\<close>

subsection \<open>Inputs of the scenarios\<close>

text \<open>A board of numbers, as the caller passes it: no holes, nothing undefined.\<close>

definition number_board :: "int list \<Rightarrow> cell list" where
  "number_board xs = map (\<lambda>n. Some (Icon n)) xs"

text \<open>The collaborator under which every position is always selectable.\<close>

definition all_positions :: "cell list \<Rightarrow> nat list" where
  "all_positions b = [0..<length b]"

text \<open>The default configuration: no option given.\<close>

definition default_params :: params where
  "default_params = \<lparr>beamWidth = None, maxExpansions = None, maxDepth = None\<rparr>"

text \<open>
  A collaborator that gates positions by the state of the board of six pieces
  \<open>[0,0,0,1,1,1]\<close>: a pure function of the board values that only ever names positions
  holding a piece. After position 3 is taken first, nothing of type 0 is selectable any more.
\<close>

definition gated_positions :: "cell list \<Rightarrow> nat list" where
  "gated_positions b =
     (if b = number_board [0, 0, 0, 1, 1, 1] then [0, 3]
      else if b = number_board [- 1, 0, 0, 1, 1, 1] then [3]
      else if b = number_board [0, 0, 0, - 1, 1, 1] then [4, 5]
      else if b = number_board [- 1, 0, 0, - 1, 1, 1] then [1]
      else if b = number_board [- 1, - 1, 0, - 1, 1, 1] then [2]
      else if b = number_board [- 1, - 1, - 1, - 1, 1, 1] then [4]
      else if b = number_board [- 1, - 1, - 1, - 1, - 1, 1] then [5]
      else [])"

text \<open>The \<^verbatim>\<open>stats\<close> object of either result.\<close>

fun stats_of :: "result \<Rightarrow> stats" where
  "stats_of (Solvable mv st) = st"
| "stats_of (Unsolvable st) = st"

subsection \<open>Replaying a move path\<close>

text \<open>
  A move at a position: the piece read there goes to the end of the tray, the position is
  emptied on a copy of the board, and the resolution engine runs on the tray.
\<close>

definition apply_move :: "cell list \<times> icon list \<Rightarrow> nat \<Rightarrow> cell list \<times> icon list" where
  "apply_move s slotIdx =
     (board_set (spread (fst s)) slotIdx (Icon (- 1)),
      res_tray (resolveTrayTriples (snd s @ [board_get (fst s) slotIdx])))"

text \<open>
  The replay of a path checks, before each move, that the position is among the
  collaborator's selectable positions of the current board and does not hold the empty
  sentinel \<open>-1\<close>; a path that fails a check has no replay (\<open>None\<close>).
\<close>

fun replay ::
  "(cell list \<Rightarrow> nat list) \<Rightarrow> cell list \<times> icon list \<Rightarrow> nat list \<Rightarrow> (cell list \<times> icon list) option"
where
  "replay g s [] = Some s"
| "replay g s (p # ps) =
     (if p \<in> set (g (fst s)) \<and> board_get (fst s) p \<noteq> Icon (- 1)
      then replay g (apply_move s p) ps else None)"

text \<open>
  The stricter reading of a move's check: the position lies on the board and holds a number
  other than the empty sentinel. The strict replay uses it.
\<close>

definition holds_piece :: "cell list \<Rightarrow> nat \<Rightarrow> bool" where
  "holds_piece b p =
     (p < length b \<and> (case b ! p of Some (Icon n) \<Rightarrow> n \<noteq> - 1 | _ \<Rightarrow> False))"

fun replay_strict ::
  "(cell list \<Rightarrow> nat list) \<Rightarrow> cell list \<times> icon list \<Rightarrow> nat list \<Rightarrow> (cell list \<times> icon list) option"
where
  "replay_strict g s [] = Some s"
| "replay_strict g s (p # ps) =
     (if p \<in> set (g (fst s)) \<and> holds_piece (fst s) p
      then replay_strict g (apply_move s p) ps else None)"

subsection \<open>Candidates and frontiers\<close>

text \<open>The candidate node that the expansion of \<open>nd\<close> at a slot builds.\<close>

definition child :: "node \<Rightarrow> nat \<Rightarrow> nat \<Rightarrow> nat \<Rightarrow> node" where
  "child nd remaining d slotIdx =
     (let newBoard = board_set (spread (board nd)) slotIdx (Icon (- 1));
          res = resolveTrayTriples (tray nd @ [board_get (board nd) slotIdx])
      in \<lparr>board = newBoard, tray = res_tray res,
          score = score nd + scoreState newBoard (res_tray res) (tray nd) (int remaining)
                    (int (remaining_count newBoard)),
          moves = moves nd @ [slotIdx], depth = d + 1,
          hash = hashState newBoard (res_tray res)\<rparr>)"

text \<open>
  The frontier with which the \<^verbatim>\<open>for (depth ...)\<close> loop starts its iteration \<open>d\<close>, when
  the search gets that far (it has neither returned nor left the loop before).
\<close>

fun frontier_at ::
  "nat \<Rightarrow> nat \<Rightarrow> nat \<Rightarrow> (cell list \<Rightarrow> nat list) \<Rightarrow> cell list \<Rightarrow> nat \<Rightarrow> frontier option"
where
  "frontier_at bw m md g b0 0 = Some (initial_frontier b0)"
| "frontier_at bw m md g b0 (Suc d) =
     (case frontier_at bw m md g b0 d of
        None \<Rightarrow> None
      | Some fr \<Rightarrow>
          if d < md \<and> fst fr \<noteq> [] then
            (case level bw m g d fr of Inl r \<Rightarrow> None | Inr fr' \<Rightarrow> Some fr')
          else None)"

subsection \<open>Invariants of the loops\<close>

lemma expand_slot_cases:
  "(candidates (expand_slot nd r d s st) = candidates st) \<or>
   (candidates (expand_slot nd r d s st) = candidates st @ [child nd r d s] \<and>
    board_get (board nd) s \<noteq> Icon (- 1) \<and> length (tray (child nd r d s)) \<le> 7)"
  by (auto simp: expand_slot_def child_def Let_def split: option.splits)

lemma expand_slot_expansions: "expansions (expand_slot nd r d s st) = expansions st + 1"
  by (auto simp: expand_slot_def Let_def split: option.splits)

lemma expand_slot_inv:
  assumes "\<And>s. s \<in> set (g (board nd)) \<Longrightarrow> board_get (board nd) s \<noteq> Icon (- 1) \<Longrightarrow>
              length (tray (child nd r d s)) \<le> 7 \<Longrightarrow> P (child nd r d s)"
    and "s \<in> set (g (board nd))" and "\<forall>c\<in>set (candidates st). P c"
  shows "\<forall>c\<in>set (candidates (expand_slot nd r d s st)). P c"
  using expand_slot_cases [of nd r d s st] assms by auto

lemma expand_slots_inv:
  assumes "\<And>s. s \<in> set (g (board nd)) \<Longrightarrow> board_get (board nd) s \<noteq> Icon (- 1) \<Longrightarrow>
              length (tray (child nd r d s)) \<le> 7 \<Longrightarrow> P (child nd r d s)"
    and "set slots \<subseteq> set (g (board nd))" and "\<forall>c\<in>set (candidates st). P c"
  shows "\<forall>c\<in>set (candidates (expand_slots m nd r d slots st)). P c"
  using assms(2,3)
proof (induction slots arbitrary: st)
  case Nil
  then show ?case by simp
next
  case (Cons s slots)
  have "\<forall>c\<in>set (candidates (expand_slot nd r d s st)). P c"
    using assms(1) Cons.prems by (intro expand_slot_inv [where g = g]) auto
  then show ?case using Cons by simp
qed

text \<open>
  The invariants are stated for a predicate \<open>P\<close> on the nodes of the frontier and a
  predicate \<open>Q\<close> on the candidates; the loop over the depths takes a family indexed by
  the depth.
\<close>

lemma expand_beam_inv:
  assumes step: "\<And>nd r s. P nd \<Longrightarrow> s \<in> set (g (board nd)) \<Longrightarrow>
              board_get (board nd) s \<noteq> Icon (- 1) \<Longrightarrow>
              length (tray (child nd r d s)) \<le> 7 \<Longrightarrow> Q (child nd r d s)"
    and "\<forall>nd\<in>set beam. P nd" and "\<forall>c\<in>set (candidates st). Q c"
  shows "case expand_beam bw m g d beam st of
           Inl res \<Rightarrow> \<exists>nd\<in>set beam. \<exists>ex. solved nd \<and> res = Solvable (moves nd)
               \<lparr>expansionsUsed = ex, bestScore = Some (score nd), stats_beamWidth = bw,
                stats_depth = Some d\<rparr>
         | Inr st' \<Rightarrow> \<forall>c\<in>set (candidates st'). Q c"
  using assms(2,3)
proof (induction beam arbitrary: st)
  case Nil
  then show ?case by simp
next
  case (Cons nd nds)
  show ?case
  proof (cases "expansions st \<ge> m")
    case True
    then show ?thesis using Cons.prems by simp
  next
    case budget: False
    show ?thesis
    proof (cases "solved nd")
      case True
      then show ?thesis using budget by auto
    next
      case False
      let ?st = "expand_slots m nd (remaining_count (board nd)) d (g (board nd)) st"
      have "P nd" using Cons.prems(1) by simp
      then have "\<forall>c\<in>set (candidates ?st). Q c"
        using step Cons.prems(2) by (intro expand_slots_inv [where g = g]) auto
      moreover have "\<forall>nd\<in>set nds. P nd" using Cons.prems(1) by simp
      ultimately have "case expand_beam bw m g d nds ?st of
           Inl res \<Rightarrow> \<exists>nd\<in>set nds. \<exists>ex. solved nd \<and> res = Solvable (moves nd)
               \<lparr>expansionsUsed = ex, bestScore = Some (score nd), stats_beamWidth = bw,
                stats_depth = Some d\<rparr>
         | Inr st' \<Rightarrow> \<forall>c\<in>set (candidates st'). Q c"
        by (rule Cons.IH [rotated])
      then show ?thesis using False budget by (auto split: sum.splits)
    qed
  qed
qed

lemma level_inv:
  assumes step: "\<And>nd r s. P nd \<Longrightarrow> s \<in> set (g (board nd)) \<Longrightarrow>
              board_get (board nd) s \<noteq> Icon (- 1) \<Longrightarrow>
              length (tray (child nd r d s)) \<le> 7 \<Longrightarrow> Q (child nd r d s)"
    and "\<forall>nd\<in>set (fst fr). P nd"
  shows "case level bw m g d fr of
           Inl res \<Rightarrow> \<exists>nd\<in>set (fst fr). \<exists>ex. solved nd \<and> P nd \<and> res = Solvable (moves nd)
               \<lparr>expansionsUsed = ex, bestScore = Some (score nd), stats_beamWidth = bw,
                stats_depth = Some d\<rparr>
         | Inr fr' \<Rightarrow> \<forall>c\<in>set (fst fr'). Q c"
proof -
  obtain beam vis ex where fr: "fr = (beam, vis, ex)" by (cases fr) auto
  let ?st = "\<lparr>candidates = [], visited = vis, expansions = ex\<rparr>"
  have "case expand_beam bw m g d beam ?st of
           Inl res \<Rightarrow> \<exists>nd\<in>set beam. \<exists>ex. solved nd \<and> res = Solvable (moves nd)
               \<lparr>expansionsUsed = ex, bestScore = Some (score nd), stats_beamWidth = bw,
                stats_depth = Some d\<rparr>
         | Inr st' \<Rightarrow> \<forall>c\<in>set (candidates st'). Q c"
    using step assms(2) fr by (intro expand_beam_inv [where g = g and P = P and Q = Q]) auto
  then show ?thesis
    using assms(2) fr by (auto simp: level_def split: sum.splits dest: in_set_takeD)
qed

lemma search_loop_inv:
  assumes step: "\<And>nd r d s. P d nd \<Longrightarrow> s \<in> set (g (board nd)) \<Longrightarrow>
              board_get (board nd) s \<noteq> Icon (- 1) \<Longrightarrow>
              length (tray (child nd r d s)) \<le> 7 \<Longrightarrow> P (Suc d) (child nd r d s)"
    and "\<forall>nd\<in>set (fst fr). P d nd"
    and "search_loop bw m md g d fr = Solvable mv st"
  shows "\<exists>nd e. P e nd \<and> solved nd \<and> mv = moves nd \<and> bestScore st = Some (score nd) \<and>
           stats_depth st = Some e"
  using assms(2,3)
proof (induction "md - d" arbitrary: d fr)
  case 0
  then show ?case by simp
next
  case (Suc n)
  have run: "d < md \<and> fst fr \<noteq> []"
    using Suc.prems(2) by (auto split: if_splits)
  have lv: "case level bw m g d fr of
           Inl res \<Rightarrow> \<exists>nd\<in>set (fst fr). \<exists>ex. solved nd \<and> P d nd \<and> res = Solvable (moves nd)
               \<lparr>expansionsUsed = ex, bestScore = Some (score nd), stats_beamWidth = bw,
                stats_depth = Some d\<rparr>
         | Inr fr' \<Rightarrow> \<forall>c\<in>set (fst fr'). P (Suc d) c"
    using Suc.prems(1) by (intro level_inv [where g = g and P = "P d" and Q = "P (Suc d)"] step)
  show ?case
  proof (cases "level bw m g d fr")
    case (Inl res)
    then have "res = Solvable mv st" using Suc.prems(2) run by simp
    then show ?thesis using lv Inl by auto
  next
    case (Inr fr')
    then have "search_loop bw m md g (d + 1) fr' = Solvable mv st"
      using Suc.prems(2) run by simp
    moreover have "\<forall>c\<in>set (fst fr'). P (d + 1) c" using lv Inr by simp
    moreover have "n = md - (d + 1)" using Suc.hyps(2) by simp
    ultimately show ?thesis using Suc.hyps(1) by blast
  qed
qed

lemma search_loop_frontier_at:
  "frontier_at bw m md g b0 d = Some fr \<Longrightarrow>
   search_loop bw m md g 0 (initial_frontier b0) = search_loop bw m md g d fr"
proof (induction d arbitrary: fr)
  case 0
  then show ?case by simp
next
  case (Suc d)
  from Suc.prems obtain fr0 where fr0: "frontier_at bw m md g b0 d = Some fr0"
    and run: "d < md \<and> fst fr0 \<noteq> []" and lv: "level bw m g d fr0 = Inr fr"
    by (auto split: option.splits if_splits sum.splits)
  have "search_loop bw m md g 0 (initial_frontier b0) = search_loop bw m md g d fr0"
    using fr0 by (rule Suc.IH)
  also have "\<dots> = search_loop bw m md g (d + 1) fr"
    using run lv by simp
  finally show ?case by simp
qed

lemma frontier_at_inv:
  assumes step: "\<And>nd r d s. P d nd \<Longrightarrow> s \<in> set (g (board nd)) \<Longrightarrow>
              board_get (board nd) s \<noteq> Icon (- 1) \<Longrightarrow>
              length (tray (child nd r d s)) \<le> 7 \<Longrightarrow> P (Suc d) (child nd r d s)"
    and "P 0 (initialNode b0)"
    and "frontier_at bw m md g b0 d = Some fr"
  shows "\<forall>nd\<in>set (fst fr). P d nd"
  using assms(3)
proof (induction d arbitrary: fr)
  case 0
  then show ?case using assms(2) by (auto simp: initial_frontier_def)
next
  case (Suc d)
  from Suc.prems obtain fr0 where fr0: "frontier_at bw m md g b0 d = Some fr0"
    and lv: "level bw m g d fr0 = Inr fr"
    by (auto split: option.splits if_splits sum.splits)
  have "\<forall>nd\<in>set (fst fr0). P d nd" using fr0 by (rule Suc.IH)
  then have "case level bw m g d fr0 of
           Inl res \<Rightarrow> \<exists>nd\<in>set (fst fr0). \<exists>ex. solved nd \<and> P d nd \<and> res = Solvable (moves nd)
               \<lparr>expansionsUsed = ex, bestScore = Some (score nd), stats_beamWidth = bw,
                stats_depth = Some d\<rparr>
         | Inr fr' \<Rightarrow> \<forall>c\<in>set (fst fr'). P (Suc d) c"
    by (intro level_inv [where g = g and P = "P d" and Q = "P (Suc d)"] step)
  then show ?case using lv by simp
qed

subsection \<open>Path validity\<close>

lemma replay_append:
  "replay g s (ps @ [p]) =
     (case replay g s ps of None \<Rightarrow> None
      | Some s' \<Rightarrow> if p \<in> set (g (fst s')) \<and> board_get (fst s') p \<noteq> Icon (- 1)
                  then Some (apply_move s' p) else None)"
  by (induction ps arbitrary: s) auto

lemma spread_number_board: "spread (number_board xs) = number_board xs"
  by (simp add: spread_def number_board_def)

lemma replay_strict_append:
  "replay_strict g s (ps @ [p]) =
     (case replay_strict g s ps of None \<Rightarrow> None
      | Some s' \<Rightarrow> if p \<in> set (g (fst s')) \<and> holds_piece (fst s') p
                  then Some (apply_move s' p) else None)"
  by (induction ps arbitrary: s) auto

lemma number_board_holds_piece:
  "p < length ys \<Longrightarrow> board_get (number_board ys) p \<noteq> Icon (- 1) \<Longrightarrow>
   holds_piece (number_board ys) p"
  by (simp add: holds_piece_def board_get_def number_board_def)

lemma number_board_set:
  "p < length ys \<Longrightarrow> board_set (number_board ys) p (Icon n) = number_board (ys[p := n])"
  by (simp add: board_set_def number_board_def map_update)

lemma number_board_cleared:
  assumes "remaining_count (number_board ys) = 0"
  shows "number_board ys = replicate (length ys) (Some (Icon (- 1)))"
proof -
  have "\<forall>y\<in>set ys. y = - 1"
    using assms by (auto simp: remaining_count_def number_board_def filter_empty_conv)
  then have "map (\<lambda>n. Some (Icon n)) ys = map (\<lambda>n. Some (Icon (- 1))) ys"
    by simp
  then show ?thesis by (simp add: number_board_def map_replicate_const)
qed

text \<open>
  Claim C3. Whenever \<^const>\<open>isSolvable\<close> returns a success for a board of numbers, the
  replay of the winning moves from that board and the empty tray passes every check (each
  position is selectable in the board of its moment and does not hold the empty sentinel)
  and ends with no remaining piece on the board and an empty tray. When the collaborator
  names positions of the board only, every move moreover takes a piece that is there (the
  strict replay succeeds) and the final board holds the empty sentinel at every position.
\<close>

theorem winning_moves_replay:
  assumes "isSolvable (number_board xs) g ps = Solvable mv st"
  shows "(\<exists>fb. replay g (number_board xs, []) mv = Some (fb, []) \<and> remaining_count fb = 0) \<and>
         ((\<forall>b. \<forall>p\<in>set (g b). p < length b) \<longrightarrow>
            replay_strict g (number_board xs, []) mv
              = Some (replicate (length xs) (Some (Icon (- 1))), []))"
proof (intro conjI impI)
  let ?P = "\<lambda>nd. replay g (number_board xs, []) (moves nd) = Some (board nd, tray nd)"
  have step: "\<And>nd r d s. ?P nd \<Longrightarrow> s \<in> set (g (board nd)) \<Longrightarrow>
              board_get (board nd) s \<noteq> Icon (- 1) \<Longrightarrow>
              length (tray (child nd r d s)) \<le> 7 \<Longrightarrow> ?P (child nd r d s)"
    by (simp add: replay_append child_def apply_move_def Let_def)
  have init: "\<forall>nd\<in>set (fst (initial_frontier (number_board xs))). ?P nd"
    by (simp add: initial_frontier_def initialNode_def spread_number_board)
  obtain nd where "?P nd" "solved nd" "mv = moves nd"
    using search_loop_inv [where P = "\<lambda>d. ?P", OF step init] assms
    unfolding isSolvable_def beamSearchSolve_def by blast
  then show "\<exists>fb. replay g (number_board xs, []) mv = Some (fb, []) \<and> remaining_count fb = 0"
    by (simp add: solved_def)
next
  assume wf: "\<forall>b. \<forall>p\<in>set (g b). p < length b"
  let ?Q = "\<lambda>nd. \<exists>ys. board nd = number_board ys \<and> length ys = length xs \<and>
      replay_strict g (number_board xs, []) (moves nd) = Some (board nd, tray nd)"
  have step: "?Q (child nd r d s)"
    if q: "?Q nd" "s \<in> set (g (board nd))" "board_get (board nd) s \<noteq> Icon (- 1)" for nd r d s
  proof -
    obtain ys where ys: "board nd = number_board ys" "length ys = length xs"
      "replay_strict g (number_board xs, []) (moves nd) = Some (board nd, tray nd)"
      using q(1) by blast
    have "s < length (board nd)" using wf q(2) by blast
    then have s: "s < length ys" using ys(1) by (simp add: number_board_def)
    have hp: "holds_piece (board nd) s"
      using q(3) s unfolding ys(1) by (intro number_board_holds_piece)
    have bs: "board_set (spread (board nd)) s (Icon (- 1)) = number_board (ys[s := - 1])"
      using s by (simp add: ys(1) spread_number_board number_board_set)
    have "board (child nd r d s) = number_board (ys[s := - 1])"
      using bs by (simp add: child_def Let_def)
    moreover have "replay_strict g (number_board xs, []) (moves (child nd r d s))
        = Some (board (child nd r d s), tray (child nd r d s))"
      using ys(3) q(2) hp
      by (simp add: replay_strict_append child_def apply_move_def Let_def)
    ultimately show ?thesis using ys(2) by (intro exI [of _ "ys[s := - 1]"]) simp
  qed
  have "\<exists>ys. number_board xs = number_board ys \<and> length ys = length xs" by blast
  then have init: "\<forall>nd\<in>set (fst (initial_frontier (number_board xs))). ?Q nd"
    by (simp add: initial_frontier_def initialNode_def spread_number_board)
  obtain nd where nd: "?Q nd" "solved nd" "mv = moves nd"
    using search_loop_inv [where P = "\<lambda>d. ?Q" and g = g, OF step init] assms
    unfolding isSolvable_def beamSearchSolve_def by blast
  obtain ys where ys: "board nd = number_board ys" "length ys = length xs"
    using nd(1) by blast
  have "board nd = replicate (length xs) (Some (Icon (- 1)))"
    using number_board_cleared [of ys] nd(2) ys by (simp add: solved_def)
  then show "replay_strict g (number_board xs, []) mv
      = Some (replicate (length xs) (Some (Icon (- 1))), [])"
    using nd by (auto simp: solved_def)
qed

subsection \<open>Tray capacity\<close>

text \<open>
  Claim C9. Every node of every frontier the search reaches has a tray of at most 7
  entries, and so has every candidate collected from such a frontier for the next one;
  any single expansion step keeps the bound on the candidates; and a candidate whose tray
  after resolution is longer than 7 is not added (nor recorded as visited).
\<close>

theorem tray_capacity_invariant:
  "(frontier_at bw m md g b0 d = Some fr \<longrightarrow>
      (\<forall>nd\<in>set (fst fr). length (tray nd) \<le> 7) \<and>
      (\<forall>st'. expand_beam bw m g d (fst fr)
                \<lparr>candidates = [], visited = fst (snd fr), expansions = snd (snd fr)\<rparr> = Inr st' \<longrightarrow>
             (\<forall>c\<in>set (candidates st'). length (tray c) \<le> 7))) \<and>
   ((\<forall>c\<in>set (candidates st). length (tray c) \<le> 7) \<longrightarrow>
      (\<forall>c\<in>set (candidates (expand_slot nd r e s st)). length (tray c) \<le> 7)) \<and>
   (7 < length (res_tray (resolveTrayTriples (tray nd @ [board_get (board nd) s]))) \<longrightarrow>
      candidates (expand_slot nd r e s st) = candidates st \<and>
      visited (expand_slot nd r e s st) = visited st)"
proof -
  let ?P = "\<lambda>nd :: node. length (tray nd) \<le> 7"
  let ?st0 = "\<lparr>candidates = [], visited = fst (snd fr), expansions = snd (snd fr)\<rparr> :: search_state"
  have fr: "\<forall>nd\<in>set (fst fr). ?P nd" if "frontier_at bw m md g b0 d = Some fr"
    using that by (rule frontier_at_inv [where P = "\<lambda>d. ?P", rotated 2])
      (simp_all add: initialNode_def)
  have cands: "\<forall>c\<in>set (candidates st'). ?P c"
    if "frontier_at bw m md g b0 d = Some fr" and "expand_beam bw m g d (fst fr) ?st0 = Inr st'"
    for st'
  proof -
    have "case expand_beam bw m g d (fst fr) ?st0 of
           Inl res \<Rightarrow> \<exists>nd\<in>set (fst fr). \<exists>ex. solved nd \<and> res = Solvable (moves nd)
               \<lparr>expansionsUsed = ex, bestScore = Some (score nd), stats_beamWidth = bw,
                stats_depth = Some d\<rparr>
         | Inr st' \<Rightarrow> \<forall>c\<in>set (candidates st'). ?P c"
      using fr [OF that(1)]
      by (intro expand_beam_inv [where g = g and P = ?P and Q = ?P]) simp_all
    then show ?thesis using that(2) by simp
  qed
  have step: "\<forall>c\<in>set (candidates st). ?P c \<Longrightarrow>
      \<forall>c\<in>set (candidates (expand_slot nd r e s st)). ?P c"
    using expand_slot_cases [of nd r e s st] by auto
  have discard: "7 < length (res_tray (resolveTrayTriples (tray nd @ [board_get (board nd) s]))) \<Longrightarrow>
      candidates (expand_slot nd r e s st) = candidates st \<and>
      visited (expand_slot nd r e s st) = visited st"
    by (simp add: expand_slot_def Let_def)
  show ?thesis using fr cands step discard by blast
qed

subsection \<open>Recognising a solved node\<close>

lemma expand_beam_append:
  "expand_beam bw m g d (pre @ rest) st =
     (case expand_beam bw m g d pre st of
        Inl r \<Rightarrow> Inl r
      | Inr st' \<Rightarrow> expand_beam bw m g d rest st')"
proof (induction pre arbitrary: st)
  case Nil
  then show ?case by simp
next
  case (Cons nd pre)
  show ?case
  proof (cases "expansions st \<ge> m")
    case True
    then show ?thesis by (cases rest) simp_all
  next
    case False
    then show ?thesis using Cons.IH by simp
  qed
qed

text \<open>
  Claim C5, as amended. At a depth below \<^verbatim>\<open>maxDepth\<close>, when the loop over the frontier
  has processed the nodes before a solved node without returning and the expansion budget
  is not used up at that point, the search returns that node's move path, with the number
  of expansions unchanged by the node: the win check comes before any expansion of the
  node. (The budget check comes before the win check.)
\<close>

theorem solved_node_recognised:
  assumes "d < md"
    and "expand_beam bw m g d pre \<lparr>candidates = [], visited = vis, expansions = ex\<rparr> = Inr st'"
    and "expansions st' < m"
    and "solved nd"
  shows "search_loop bw m md g d (pre @ nd # post, vis, ex) =
     Solvable (moves nd)
       \<lparr>expansionsUsed = expansions st', bestScore = Some (score nd),
        stats_beamWidth = bw, stats_depth = Some d\<rparr>"
proof -
  have "expand_beam bw m g d (pre @ nd # post) \<lparr>candidates = [], visited = vis, expansions = ex\<rparr>
      = Inl (Solvable (moves nd)
       \<lparr>expansionsUsed = expansions st', bestScore = Some (score nd),
        stats_beamWidth = bw, stats_depth = Some d\<rparr>)"
    using assms(2,3,4) by (simp add: expand_beam_append)
  then show ?thesis using assms(1) by (simp add: level_def)
qed

subsection \<open>Larger budgets\<close>

lemma expand_slots_expansions_mono: "expansions st \<le> expansions (expand_slots m nd r d slots st)"
proof (induction slots arbitrary: st)
  case Nil
  then show ?case by simp
next
  case (Cons s slots)
  have "expansions st \<le> expansions (expand_slot nd r d s st)"
    by (simp add: expand_slot_expansions)
  also have "\<dots> \<le> expansions (expand_slots m nd r d slots (expand_slot nd r d s st))"
    by (rule Cons.IH)
  finally show ?case by simp
qed

lemma expand_slots_budget:
  "m \<le> m' \<Longrightarrow> expansions (expand_slots m nd r d slots st) < m \<Longrightarrow>
   expand_slots m' nd r d slots st = expand_slots m nd r d slots st"
proof (induction slots arbitrary: st)
  case Nil
  then show ?case by simp
next
  case (Cons s slots)
  have "expansions st \<le> expansions (expand_slots m nd r d (s # slots) st)"
    by (rule expand_slots_expansions_mono)
  then have lt: "expansions st < m" using Cons.prems(2) by simp
  then have "expansions (expand_slots m nd r d slots (expand_slot nd r d s st)) < m"
    using Cons.prems(2) by simp
  then show ?case using Cons.IH Cons.prems(1) lt by simp
qed

lemma expand_beam_Inr_expansions_mono:
  "expand_beam bw m g d beam st = Inr st' \<Longrightarrow> expansions st \<le> expansions st'"
proof (induction beam arbitrary: st)
  case Nil
  then show ?case by simp
next
  case (Cons nd beam)
  show ?case
  proof (cases "expansions st \<ge> m \<or> solved nd")
    case True
    then show ?thesis using Cons.prems by (auto split: if_splits)
  next
    case False
    let ?st = "expand_slots m nd (remaining_count (board nd)) d (g (board nd)) st"
    have "expand_beam bw m g d beam ?st = Inr st'" using False Cons.prems by simp
    then have "expansions ?st \<le> expansions st'" by (rule Cons.IH)
    then show ?thesis using expand_slots_expansions_mono [of st m nd _ d _] by (meson le_trans)
  qed
qed

lemma expand_beam_Inl_expansions:
  "expand_beam bw m g d beam st = Inl r \<Longrightarrow> expansions st < m"
  by (cases beam) (auto split: if_splits)

lemma expand_beam_budget:
  assumes "m \<le> m'"
  shows "(expand_beam bw m g d beam st = Inl r \<longrightarrow> expand_beam bw m' g d beam st = Inl r) \<and>
         (\<forall>st'. expand_beam bw m g d beam st = Inr st' \<and> expansions st' < m \<longrightarrow>
            expand_beam bw m' g d beam st = Inr st')"
proof (induction beam arbitrary: st)
  case Nil
  then show ?case by simp
next
  case (Cons nd beam)
  let ?st = "expand_slots m nd (remaining_count (board nd)) d (g (board nd)) st"
  let ?st' = "expand_slots m' nd (remaining_count (board nd)) d (g (board nd)) st"
  show ?case
  proof (cases "expansions st \<ge> m")
    case True
    then show ?thesis by auto
  next
    case lt: False
    show ?thesis
    proof (cases "solved nd")
      case True
      then show ?thesis using lt assms by auto
    next
      case False
      have rec: "expand_beam bw m g d (nd # beam) st = expand_beam bw m g d beam ?st"
        using lt False by simp
      have rec': "expand_beam bw m' g d (nd # beam) st = expand_beam bw m' g d beam ?st'"
        using lt False assms by simp
      have same: "expansions ?st < m \<Longrightarrow> ?st' = ?st"
        using assms by (rule expand_slots_budget)
      show ?thesis
      proof (intro conjI impI allI)
        assume a: "expand_beam bw m g d (nd # beam) st = Inl r"
        then have "expansions ?st < m"
          using rec expand_beam_Inl_expansions by metis
        then show "expand_beam bw m' g d (nd # beam) st = Inl r"
          using a rec rec' same Cons.IH by metis
      next
        fix st'
        assume a: "expand_beam bw m g d (nd # beam) st = Inr st' \<and> expansions st' < m"
        then have "expansions ?st \<le> expansions st'"
          using rec expand_beam_Inr_expansions_mono by metis
        then have "expansions ?st < m" using a by simp
        then show "expand_beam bw m' g d (nd # beam) st = Inr st'"
          using a rec rec' same Cons.IH by metis
      qed
    qed
  qed
qed


lemma level_budget:
  assumes "m \<le> m'"
  shows "(level bw m g d fr = Inl r \<longrightarrow> level bw m' g d fr = Inl r) \<and>
         (level bw m g d fr = Inr fr' \<and> snd (snd fr') < m \<longrightarrow> level bw m' g d fr = Inr fr')"
proof -
  obtain beam vis ex where fr: "fr = (beam, vis, ex)" by (cases fr) auto
  let ?st = "\<lparr>candidates = [], visited = vis, expansions = ex\<rparr>"
  note eb = expand_beam_budget [OF assms, of bw g d beam ?st]
  show ?thesis
  proof (cases "expand_beam bw m g d beam ?st")
    case (Inl res)
    then have "expand_beam bw m' g d beam ?st = Inl res" using eb by blast
    then show ?thesis using Inl fr by (simp add: level_def)
  next
    case (Inr st')
    have "expansions st' < m \<Longrightarrow> expand_beam bw m' g d beam ?st = Inr st'"
      using eb Inr by blast
    then show ?thesis using Inr fr by (auto simp: level_def)
  qed
qed

lemma search_loop_exhausted:
  assumes "m \<le> snd (snd fr)"
  shows "search_loop bw m md g d fr \<noteq> Solvable mv st"
proof (cases "d < md \<and> fst fr \<noteq> []")
  case False
  then show ?thesis by auto
next
  case True
  obtain beam vis ex where fr: "fr = (beam, vis, ex)" by (cases fr) auto
  obtain nd nds where beam: "beam = nd # nds" using True fr by (cases beam) auto
  have "level bw m g d fr = Inr ([], vis, ex)"
    using assms fr beam by (simp add: level_def)
  then have "search_loop bw m md g d fr = search_loop bw m md g (d + 1) ([], vis, ex)"
    using True by simp
  then show ?thesis by simp
qed

lemma search_loop_budget:
  assumes "m \<le> m'" and "md \<le> md'"
    and "search_loop bw m md g d fr = Solvable mv st"
  shows "search_loop bw m' md' g d fr = Solvable mv st"
  using assms(3)
proof (induction "md - d" arbitrary: d fr)
  case 0
  then show ?case by simp
next
  case (Suc n)
  have run: "d < md \<and> fst fr \<noteq> []"
    using Suc.prems by (auto split: if_splits)
  then have run': "d < md' \<and> fst fr \<noteq> []" using assms(2) by simp
  show ?case
  proof (cases "level bw m g d fr")
    case (Inl res)
    then have "res = Solvable mv st" using Suc.prems run by simp
    moreover have "level bw m' g d fr = Inl res"
      using level_budget [OF assms(1)] Inl by blast
    ultimately show ?thesis using run' by simp
  next
    case (Inr fr')
    then have next_run: "search_loop bw m md g (d + 1) fr' = Solvable mv st"
      using Suc.prems run by simp
    have "snd (snd fr') < m"
    proof (rule ccontr)
      assume "\<not> snd (snd fr') < m"
      then have "m \<le> snd (snd fr')" by simp
      then show False
        using search_loop_exhausted [of m fr' bw md g "d + 1" mv st] next_run by blast
    qed
    then have "level bw m' g d fr = Inr fr'"
      using level_budget [OF assms(1)] Inr by blast
    moreover have "n = md - (d + 1)" using Suc.hyps(2) by simp
    then have "search_loop bw m' md' g (d + 1) fr' = Solvable mv st"
      using Suc.hyps(1) next_run by blast
    ultimately show ?thesis using run' by simp
  qed
qed

text \<open>
  Claim C4, as amended. With the effective beam width unchanged, a success is returned
  unchanged when the effective \<^verbatim>\<open>maxExpansions\<close> or \<^verbatim>\<open>maxDepth\<close> (the option, or its
  default when absent or zero) is made larger.
\<close>

theorem larger_budget_keeps_solution:
  assumes "isSolvable b0 g ps = Solvable mv st"
    and "or_default (beamWidth ps') SOLVER_BEAM_WIDTH = or_default (beamWidth ps) SOLVER_BEAM_WIDTH"
    and "or_default (maxExpansions ps) SOLVER_MAX_EXPANSIONS
           \<le> or_default (maxExpansions ps') SOLVER_MAX_EXPANSIONS"
    and "or_default (maxDepth ps) SOLVER_MAX_DEPTH \<le> or_default (maxDepth ps') SOLVER_MAX_DEPTH"
  shows "isSolvable b0 g ps' = Solvable mv st"
  using assms(1) search_loop_budget [OF assms(3,4)]
  unfolding isSolvable_def beamSearchSolve_def assms(2) by blast

lemma gated_width_1:
  "isSolvable (number_board [0, 0, 0, 1, 1, 1]) gated_positions
     \<lparr>beamWidth = Some 1, maxExpansions = None, maxDepth = None\<rparr> =
   Solvable [0, 3, 1, 2, 4, 5]
     \<lparr>expansionsUsed = 7, bestScore = Some 11, stats_beamWidth = 1, stats_depth = Some 6\<rparr>"
  by code_simp

lemma gated_width_2:
  "isSolvable (number_board [0, 0, 0, 1, 1, 1]) gated_positions
     \<lparr>beamWidth = Some 2, maxExpansions = None, maxDepth = None\<rparr> =
   Unsolvable
     \<lparr>expansionsUsed = 5, bestScore = None, stats_beamWidth = 2, stats_depth = None\<rparr>"
  by code_simp

text \<open>
  Claim C4 as stated includes the beam width. On the board \<open>[0,0,0,1,1,1]\<close> with the
  gating collaborator, beam width 1 finds the solution and beam width 2 does not: the
  second node kept at depth 1 yields two candidates that outscore, and push out of the
  frontier, the only candidate on the way to the solution.
\<close>

theorem wider_beam_counterexample:
  "isSolvable (number_board [0, 0, 0, 1, 1, 1]) gated_positions
     \<lparr>beamWidth = Some 1, maxExpansions = None, maxDepth = None\<rparr> =
   Solvable [0, 3, 1, 2, 4, 5]
     \<lparr>expansionsUsed = 7, bestScore = Some 11, stats_beamWidth = 1, stats_depth = Some 6\<rparr> \<and>
   isSolvable (number_board [0, 0, 0, 1, 1, 1]) gated_positions
     \<lparr>beamWidth = Some 2, maxExpansions = None, maxDepth = None\<rparr> =
   Unsolvable
     \<lparr>expansionsUsed = 5, bestScore = None, stats_beamWidth = 2, stats_depth = None\<rparr>"
  using gated_width_1 gated_width_2 by simp

theorem larger_budget_keeps_solution_witness:
  "isSolvable (number_board [0, 0, 0, 1, 1, 1]) gated_positions
     \<lparr>beamWidth = Some 1, maxExpansions = None, maxDepth = None\<rparr> =
   Solvable [0, 3, 1, 2, 4, 5]
     \<lparr>expansionsUsed = 7, bestScore = Some 11, stats_beamWidth = 1, stats_depth = Some 6\<rparr> \<and>
   isSolvable (number_board [0, 0, 0, 1, 1, 1]) gated_positions
     \<lparr>beamWidth = Some 1, maxExpansions = Some 6000, maxDepth = Some 300\<rparr> =
   Solvable [0, 3, 1, 2, 4, 5]
     \<lparr>expansionsUsed = 7, bestScore = Some 11, stats_beamWidth = 1, stats_depth = Some 6\<rparr>"
  using gated_width_1
    larger_budget_keeps_solution [OF gated_width_1,
      of "\<lparr>beamWidth = Some 1, maxExpansions = Some 6000, maxDepth = Some 300\<rparr>"]
  by (simp add: or_default_def SOLVER_MAX_EXPANSIONS_def SOLVER_MAX_DEPTH_def)

subsection \<open>Concrete runs\<close>

lemma run_three_equal:
  "isSolvable (number_board [0, 0, 0]) all_positions default_params =
   Solvable [0, 1, 2]
     \<lparr>expansionsUsed = 21, bestScore = Some 10, stats_beamWidth = 100, stats_depth = Some 3\<rparr>"
  by code_simp

lemma run_three_equal_budget_15:
  "isSolvable (number_board [0, 0, 0]) all_positions
     \<lparr>beamWidth = None, maxExpansions = Some 15, maxDepth = None\<rparr> =
   Unsolvable
     \<lparr>expansionsUsed = 15, bestScore = None, stats_beamWidth = 100, stats_depth = None\<rparr>"
  by code_simp

lemma frontier_three_equal_budget_15:
  "map_option (\<lambda>fr. (map board (fst fr), map tray (fst fr), map moves (fst fr), snd (snd fr)))
     (frontier_at 100 15 200 all_positions (number_board [0, 0, 0]) 3) =
   Some ([number_board [- 1, - 1, - 1]], [[]], [[0, 1, 2]], 15)"
  by code_simp

lemma frontier_three_equal_depth_1:
  "map_option (\<lambda>fr. map tray (fst fr))
     (frontier_at 100 5000 200 all_positions (number_board [0, 0, 0]) 1) =
   Some [[Icon 0], [Icon 0], [Icon 0]]"
  by code_simp

lemma candidates_three_equal_depth_1:
  "map_option (\<lambda>fr.
       case expand_beam 100 5000 all_positions 1 (fst fr)
              \<lparr>candidates = [], visited = fst (snd fr), expansions = snd (snd fr)\<rparr> of
         Inl r \<Rightarrow> None
       | Inr st' \<Rightarrow> Some (map tray (candidates st')))
     (frontier_at 100 5000 200 all_positions (number_board [0, 0, 0]) 1) =
   Some (Some [[Icon 0, Icon 0], [Icon 0, Icon 0], [Icon 0, Icon 0]])"
  by code_simp

theorem winning_moves_replay_witness:
  "isSolvable (number_board [0, 0, 0]) all_positions default_params =
     Solvable [0, 1, 2]
       \<lparr>expansionsUsed = 21, bestScore = Some 10, stats_beamWidth = 100, stats_depth = Some 3\<rparr> \<and>
   replay all_positions (number_board [0, 0, 0], []) [0, 1, 2]
     = Some (number_board [- 1, - 1, - 1], []) \<and>
   remaining_count (number_board [- 1, - 1, - 1]) = 0 \<and>
   replay_strict all_positions (number_board [0, 0, 0], []) [0, 1, 2]
     = Some ([Some (Icon (- 1)), Some (Icon (- 1)), Some (Icon (- 1))], [])"
proof -
  have "replay all_positions (number_board [0, 0, 0], []) [0, 1, 2]
     = Some (number_board [- 1, - 1, - 1], [])"
    by code_simp
  moreover have "\<forall>b. \<forall>p\<in>set (all_positions b). p < length b"
    by (simp add: all_positions_def)
  ultimately show ?thesis
    using winning_moves_replay [OF run_three_equal] run_three_equal
    by (simp add: numeral_3_eq_3)
qed

text \<open>
  Claim C5 as stated promises the success whatever the budget consumed. With
  \<^verbatim>\<open>maxExpansions = 15\<close> on the board \<open>[0,0,0]\<close>, all positions selectable, the frontier
  of depth 3 consists of one solved node (reached by the moves 0, 1, 2) and depth 3 is
  below \<^verbatim>\<open>maxDepth = 200\<close>, yet the search fails: the budget check precedes the win check.
\<close>

theorem exhausted_budget_counterexample:
  "map_option (\<lambda>fr. (map solved (fst fr), map moves (fst fr), snd (snd fr)))
     (frontier_at 100 15 200 all_positions (number_board [0, 0, 0]) 3) =
     Some ([True], [[0, 1, 2]], 15) \<and>
   isSolvable (number_board [0, 0, 0]) all_positions
     \<lparr>beamWidth = None, maxExpansions = Some 15, maxDepth = None\<rparr> =
   Unsolvable
     \<lparr>expansionsUsed = 15, bestScore = None, stats_beamWidth = 100, stats_depth = None\<rparr>"
proof -
  obtain fr where fr: "frontier_at 100 15 200 all_positions (number_board [0, 0, 0]) 3 = Some fr"
    and b: "map board (fst fr) = [number_board [- 1, - 1, - 1]]"
    and t: "map tray (fst fr) = [[]]" and m: "map moves (fst fr) = [[0, 1, 2]]"
    and e: "snd (snd fr) = 15"
    using frontier_three_equal_budget_15 by auto
  from b t obtain nd where nd: "fst fr = [nd]" "board nd = number_board [- 1, - 1, - 1]" "tray nd = []"
    by (cases "fst fr") auto
  have "solved nd" using nd by (simp add: solved_def remaining_count_def number_board_def)
  then show ?thesis
    using fr nd m e run_three_equal_budget_15 by simp
qed

theorem solved_node_recognised_witness:
  "search_loop 100 5000 200 all_positions 3
     ([\<lparr>board = number_board [- 1, - 1, - 1], tray = [], score = 10, moves = [0, 1, 2],
        depth = 3, hash = ''-1,-1,-1|''\<rparr>], Map.empty, 21) =
   Solvable [0, 1, 2]
     \<lparr>expansionsUsed = 21, bestScore = Some 10, stats_beamWidth = 100, stats_depth = Some 3\<rparr>"
proof -
  let ?nd = "\<lparr>board = number_board [- 1, - 1, - 1], tray = [], score = 10, moves = [0, 1, 2],
        depth = 3, hash = ''-1,-1,-1|''\<rparr>"
  let ?st = "\<lparr>candidates = [], visited = Map.empty, expansions = 21\<rparr>"
  have 1: "(3::nat) < 200" by simp
  have 2: "expand_beam 100 5000 all_positions 3 [] ?st = Inr ?st" by simp
  have 3: "expansions ?st < 5000" by simp
  have 4: "solved ?nd" by (simp add: solved_def remaining_count_def number_board_def)
  show ?thesis
    using solved_node_recognised [OF 1 2 3 4, of "[]"] by simp
qed

theorem tray_capacity_invariant_witness:
  "map_option (\<lambda>fr. map tray (fst fr))
     (frontier_at 100 5000 200 all_positions (number_board [0, 0, 0]) 1) =
     Some [[Icon 0], [Icon 0], [Icon 0]] \<and>
   map_option (\<lambda>fr.
       case expand_beam 100 5000 all_positions 1 (fst fr)
              \<lparr>candidates = [], visited = fst (snd fr), expansions = snd (snd fr)\<rparr> of
         Inl r \<Rightarrow> None
       | Inr st' \<Rightarrow> Some (map tray (candidates st')))
     (frontier_at 100 5000 200 all_positions (number_board [0, 0, 0]) 1) =
     Some (Some [[Icon 0, Icon 0], [Icon 0, Icon 0], [Icon 0, Icon 0]]) \<and>
   7 < length (res_tray (resolveTrayTriples
     ([Icon 0, Icon 1, Icon 2, Icon 3, Icon 4, Icon 5, Icon 6] @ [board_get [Some (Icon 7)] 0]))) \<and>
   candidates (expand_slot
     \<lparr>board = [Some (Icon 7)], tray = [Icon 0, Icon 1, Icon 2, Icon 3, Icon 4, Icon 5, Icon 6],
      score = 0, moves = [], depth = 7, hash = []\<rparr> 1 7 0
     \<lparr>candidates = [], visited = Map.empty, expansions = 0\<rparr>) = []"
proof -
  let ?nd = "\<lparr>board = [Some (Icon 7)], tray = [Icon 0, Icon 1, Icon 2, Icon 3, Icon 4, Icon 5, Icon 6],
      score = 0, moves = [], depth = 7, hash = []\<rparr>"
  let ?st = "\<lparr>candidates = [], visited = Map.empty, expansions = 0\<rparr>"
  obtain fr where fr: "frontier_at 100 5000 200 all_positions (number_board [0, 0, 0]) 1 = Some fr"
    and t: "map tray (fst fr) = [[Icon 0], [Icon 0], [Icon 0]]"
    using frontier_three_equal_depth_1 by auto
  let ?eb = "expand_beam 100 5000 all_positions 1 (fst fr)
        \<lparr>candidates = [], visited = fst (snd fr), expansions = snd (snd fr)\<rparr>"
  have "(case ?eb of Inl r \<Rightarrow> None | Inr st' \<Rightarrow> Some (map tray (candidates st')))
      = Some [[Icon 0, Icon 0], [Icon 0, Icon 0], [Icon 0, Icon 0]]"
    using candidates_three_equal_depth_1 unfolding fr by simp
  then obtain st' where st': "?eb = Inr st'"
    and c: "map tray (candidates st') = [[Icon 0, Icon 0], [Icon 0, Icon 0], [Icon 0, Icon 0]]"
    by (cases ?eb) auto
  have long: "7 < length (res_tray (resolveTrayTriples
     ([Icon 0, Icon 1, Icon 2, Icon 3, Icon 4, Icon 5, Icon 6] @ [board_get [Some (Icon 7)] 0])))"
    by code_simp
  note inv = tray_capacity_invariant [where bw = 100 and m = 5000 and md = 200
      and g = all_positions and ?b0.0 = "number_board [0, 0, 0]" and d = 1 and fr = fr
      and st = ?st and nd = ?nd and r = 1 and e = 7 and s = 0]
  have "\<forall>nd\<in>set (fst fr). length (tray nd) \<le> 7" using inv fr by blast
  moreover have "\<forall>c\<in>set (candidates st'). length (tray c) \<le> 7" using inv fr st' by blast
  moreover have "candidates (expand_slot ?nd 1 7 0 ?st) = candidates ?st"
    using inv long by simp
  ultimately show ?thesis using fr t st' c long by simp
qed

subsection \<open>Budget conservation\<close>

lemma expand_slots_within_budget:
  "expansions st \<le> m \<Longrightarrow> expansions (expand_slots m nd r d slots st) \<le> m"
proof (induction slots arbitrary: st)
  case Nil
  then show ?case by simp
next
  case (Cons s slots)
  show ?case
  proof (cases "expansions st \<ge> m")
    case True
    then show ?thesis using Cons.prems by simp
  next
    case False
    then have "expansions (expand_slot nd r d s st) \<le> m"
      by (simp add: expand_slot_expansions)
    then show ?thesis using False Cons.IH by simp
  qed
qed

lemma expand_beam_within_budget:
  "expansions st \<le> m \<Longrightarrow>
   (case expand_beam bw m g d beam st of
      Inl r \<Rightarrow> expansionsUsed (stats_of r) \<le> m
    | Inr st' \<Rightarrow> expansions st' \<le> m)"
proof (induction beam arbitrary: st)
  case Nil
  then show ?case by simp
next
  case (Cons nd beam)
  show ?case
  proof (cases "expansions st \<ge> m \<or> solved nd")
    case True
    then show ?thesis using Cons.prems by auto
  next
    case False
    let ?st = "expand_slots m nd (remaining_count (board nd)) d (g (board nd)) st"
    have "expansions ?st \<le> m" using Cons.prems by (rule expand_slots_within_budget)
    then have "case expand_beam bw m g d beam ?st of
      Inl r \<Rightarrow> expansionsUsed (stats_of r) \<le> m
    | Inr st' \<Rightarrow> expansions st' \<le> m" by (rule Cons.IH)
    then show ?thesis using False by simp
  qed
qed

lemma level_within_budget:
  "snd (snd fr) \<le> m \<Longrightarrow>
   (case level bw m g d fr of
      Inl r \<Rightarrow> expansionsUsed (stats_of r) \<le> m
    | Inr fr' \<Rightarrow> snd (snd fr') \<le> m)"
proof -
  assume a: "snd (snd fr) \<le> m"
  obtain beam vis ex where fr: "fr = (beam, vis, ex)" by (cases fr) auto
  have "case expand_beam bw m g d beam \<lparr>candidates = [], visited = vis, expansions = ex\<rparr> of
      Inl r \<Rightarrow> expansionsUsed (stats_of r) \<le> m
    | Inr st' \<Rightarrow> expansions st' \<le> m"
    using a fr by (intro expand_beam_within_budget) simp
  then show ?thesis using fr by (auto simp: level_def split: sum.splits)
qed

lemma search_loop_within_budget:
  "snd (snd fr) \<le> m \<Longrightarrow> expansionsUsed (stats_of (search_loop bw m md g d fr)) \<le> m"
proof (induction "md - d" arbitrary: d fr)
  case 0
  then show ?case by simp
next
  case (Suc n)
  show ?case
  proof (cases "d < md \<and> fst fr \<noteq> []")
    case False
    then show ?thesis using Suc.prems by auto
  next
    case True
    have lv: "case level bw m g d fr of
      Inl r \<Rightarrow> expansionsUsed (stats_of r) \<le> m
    | Inr fr' \<Rightarrow> snd (snd fr') \<le> m"
      using Suc.prems by (rule level_within_budget)
    show ?thesis
    proof (cases "level bw m g d fr")
      case (Inl r)
      then show ?thesis using lv True by simp
    next
      case (Inr fr')
      have "n = md - (d + 1)" using Suc.hyps(2) by simp
      moreover have "snd (snd fr') \<le> m" using lv Inr by simp
      ultimately have "expansionsUsed (stats_of (search_loop bw m md g (d + 1) fr')) \<le> m"
        using Suc.hyps(1) by blast
      then show ?thesis using Inr True by simp
    qed
  qed
qed

text \<open>
  The number of expansions a call reports never exceeds the effective
  \<^verbatim>\<open>maxExpansions\<close>.
\<close>

theorem expansions_within_budget:
  "expansionsUsed (stats_of (isSolvable b0 g ps))
     \<le> or_default (maxExpansions ps) SOLVER_MAX_EXPANSIONS"
  unfolding isSolvable_def beamSearchSolve_def
  by (rule search_loop_within_budget) (simp add: initial_frontier_def)

subsection \<open>Nodes of the frontier\<close>

lemma spread_idem_str: "map cell_str (spread b) = map cell_str b"
  by (induction b) (auto simp: spread_def cell_str_def icon_str_def split: option.splits)

lemma hashState_spread: "hashState (spread b) t = hashState b t"
  by (simp add: hashState_def spread_idem_str)

text \<open>
  Every node of the frontier with which the search starts depth \<open>d\<close> has a resolved
  tray (no piece type three times), a signature derived from its own board and tray, a
  move path of length \<open>d\<close> and the depth \<open>d\<close>.
\<close>

theorem frontier_node_invariants:
  assumes "frontier_at bw m md g b0 d = Some fr"
  shows "\<forall>nd\<in>set (fst fr).
           first_triple (tray nd) = None \<and> hash nd = hashState (board nd) (tray nd) \<and>
           length (moves nd) = d \<and> depth nd = d"
proof -
  let ?P = "\<lambda>d (nd :: node). first_triple (tray nd) = None \<and>
      hash nd = hashState (board nd) (tray nd) \<and> length (moves nd) = d \<and> depth nd = d"
  have step: "\<And>nd r d s. ?P d nd \<Longrightarrow> s \<in> set (g (board nd)) \<Longrightarrow>
              board_get (board nd) s \<noteq> Icon (- 1) \<Longrightarrow>
              length (tray (child nd r d s)) \<le> 7 \<Longrightarrow> ?P (Suc d) (child nd r d s)"
    by (simp add: child_def Let_def resolved_result)
  have init: "?P 0 (initialNode b0)"
    by (simp add: initialNode_def first_triple_Nil hashState_spread)
  show ?thesis
    using step init assms by (rule frontier_at_inv [where P = ?P])
qed

theorem frontier_node_invariants_witness:
  "map_option (\<lambda>fr. map tray (fst fr))
     (frontier_at 100 5000 200 all_positions (number_board [0, 0, 0]) 1) =
     Some [[Icon 0], [Icon 0], [Icon 0]] \<and>
   map_option (\<lambda>fr. list_all (\<lambda>nd. length (moves nd) = 1 \<and> depth nd = 1) (fst fr))
     (frontier_at 100 5000 200 all_positions (number_board [0, 0, 0]) 1) = Some True"
proof -
  obtain fr where fr: "frontier_at 100 5000 200 all_positions (number_board [0, 0, 0]) 1 = Some fr"
    and t: "map tray (fst fr) = [[Icon 0], [Icon 0], [Icon 0]]"
    using frontier_three_equal_depth_1 by auto
  show ?thesis
    using frontier_node_invariants [OF fr] fr t by (simp add: list_all_iff)
qed

section \<open>The heuristic scorer against its contract\<close>

text \<open>
  The increment as the specification lists it: 100 for each full triple among the pieces
  the resolution engine cleared in the step, 12 for each piece type with exactly two
  occurrences in the tray after the move, minus 8 for each distinct piece type of that
  tray absent from the tray before the move, minus 3 for each entry of the tray, plus 5 for
  each piece the board lost.
\<close>

definition claimed_increment :: "nat \<Rightarrow> icon list \<Rightarrow> icon list \<Rightarrow> int \<Rightarrow> int \<Rightarrow> int" where
  "claimed_increment clearedPieces t prevTray prevRemaining newRemaining =
     100 * int (clearedPieces div 3)
     + 12 * int (card {k \<in> set t. count_list t k = 2})
     - 8 * int (card (set t - set prevTray))
     - 3 * int (length t)
     + 5 * (prevRemaining - newRemaining)"

text \<open>
  Claim C1 at the expansion that completes a triple: the node has the tray \<open>[0,0]\<close> and
  one piece of type 0 left on the board, and the move takes it. The engine clears 3
  pieces, so the listed sum is \<open>100 + 5 = 105\<close>; \<^const>\<open>scoreState\<close>, called as the
  search calls it (with the tray before the move and the tray after resolution), takes the
  difference of their lengths, \<open>2 - 0\<close>, for the cleared count and returns 5.
\<close>

theorem score_of_triple_clear:
  "clearedCount (resolveTrayTriples ([Icon 0, Icon 0] @ [Icon 0])) = 3 \<and>
   scoreState (number_board [- 1, - 1, - 1])
     (res_tray (resolveTrayTriples ([Icon 0, Icon 0] @ [Icon 0]))) [Icon 0, Icon 0] 1 0 = 5 \<and>
   claimed_increment (clearedCount (resolveTrayTriples ([Icon 0, Icon 0] @ [Icon 0])))
     (res_tray (resolveTrayTriples ([Icon 0, Icon 0] @ [Icon 0]))) [Icon 0, Icon 0] 1 0 = 105"
  by (simp add: resolve_three scoreState_def claimed_increment_def)

text \<open>
  Claim C2 on the code: the board \<open>[0,0,0]\<close>, every position selectable, default
  configuration. The search succeeds with the moves 0, 1, 2, which cover the three
  positions; the best score it reports is 10, not 100 or more, since no step is credited
  with the triple it clears.
\<close>

theorem three_equal_pieces_run:
  "isSolvable (number_board [0, 0, 0]) all_positions default_params =
   Solvable [0, 1, 2]
     \<lparr>expansionsUsed = 21, bestScore = Some 10, stats_beamWidth = 100, stats_depth = Some 3\<rparr>"
  by (rule run_three_equal)

subsection \<open>What the scorer computes during the search\<close>

lemma append_one_cleared:
  assumes "first_triple p = None"
  shows "clearedCount (resolveTrayTriples (p @ [x])) \<le> 3"
proof (cases "first_triple (p @ [x])")
  case None
  then show ?thesis by (simp add: resolveTrayTriples_None)
next
  case (Some k)
  have small: "\<And>j. count_list p j < 3" using assms by (simp add: first_triple_None_iff)
  have k3: "3 \<le> count_list (p @ [x]) k" using Some by (rule first_triple_count)
  have kx: "k = x" using k3 small [of k] by (auto split: if_splits)
  have "\<And>j. count_list (remove_first 3 k (p @ [x])) j < 3"
  proof -
    fix j
    show "count_list (remove_first 3 k (p @ [x])) j < 3"
      using small [of j] small [of x] kx by (auto simp: count_remove_first)
  qed
  then have "first_triple (remove_first 3 k (p @ [x])) = None"
    by (simp add: first_triple_None_iff)
  then show ?thesis
    by (simp add: resolveTrayTriples_Some [OF Some] resolveTrayTriples_None shift_resolved_def)
qed

lemma card_filter_remdups: "card {k \<in> set t. P k} = length (filter P (remdups t))"
proof -
  have "distinct (filter P (remdups t))" by simp
  then have "card (set (filter P (remdups t))) = length (filter P (remdups t))"
    by (rule distinct_card)
  moreover have "set (filter P (remdups t)) = {k \<in> set t. P k}" by auto
  ultimately show ?thesis by metis
qed

lemma card_new_icons:
  "card (set t - set p) = length (remdups (filter (\<lambda>i. i \<notin> set p) t))"
proof -
  have "length (remdups (filter (\<lambda>i. i \<notin> set p) t)) = card (set (filter (\<lambda>i. i \<notin> set p) t))"
    by (simp add: length_remdups_card_conv)
  moreover have "set (filter (\<lambda>i. i \<notin> set p) t) = set t - set p" by auto
  ultimately show ?thesis by simp
qed

text \<open>
  In every expansion of a node whose tray is resolved (as the tray of every node of a
  frontier is), \<^const>\<open>scoreState\<close> returns the listed sum without its first component:
  the resolution engine clears 0 or 3 pieces, the difference of the tray lengths is one
  less, and the guard \<^verbatim>\<open>cleared >= 3\<close> never holds.
\<close>

theorem score_without_triple_bonus:
  assumes "first_triple prevTray = None"
  shows "scoreState b (res_tray (resolveTrayTriples (prevTray @ [x]))) prevTray pr nr =
     claimed_increment (clearedCount (resolveTrayTriples (prevTray @ [x])))
       (res_tray (resolveTrayTriples (prevTray @ [x]))) prevTray pr nr
     - 100 * int (clearedCount (resolveTrayTriples (prevTray @ [x])) div 3)"
proof -
  let ?r = "resolveTrayTriples (prevTray @ [x])"
  have "3 * resolve_passes (prevTray @ [x]) + length (res_tray ?r) = length (prevTray @ [x])"
    "clearedCount ?r = 3 * resolve_passes (prevTray @ [x])"
    using resolve_passes_facts [of "prevTray @ [x]"] by simp_all
  then have len: "length (res_tray ?r) + clearedCount ?r = length prevTray + 1" by simp
  have "clearedCount ?r \<le> 3" using assms by (rule append_one_cleared)
  then have "int (length prevTray) - int (length (res_tray ?r)) < 3" using len by linarith
  then show ?thesis
    by (simp add: scoreState_def claimed_increment_def Let_def card_filter_remdups card_new_icons)
qed

theorem score_without_triple_bonus_witness:
  "first_triple [Icon 0, Icon 0] = None \<and>
   scoreState (number_board [- 1, - 1, - 1])
     (res_tray (resolveTrayTriples ([Icon 0, Icon 0] @ [Icon 0]))) [Icon 0, Icon 0] 1 0 = 105 - 100"
proof -
  have h: "first_triple [Icon 0, Icon 0] = None" by (simp add: first_triple_None_iff)
  have "claimed_increment (clearedCount (resolveTrayTriples ([Icon 0, Icon 0] @ [Icon 0])))
       (res_tray (resolveTrayTriples ([Icon 0, Icon 0] @ [Icon 0]))) [Icon 0, Icon 0] 1 0 = 105"
    by (simp add: resolve_three claimed_increment_def)
  moreover have "clearedCount (resolveTrayTriples ([Icon 0, Icon 0] @ [Icon 0])) = 3"
    by (simp add: resolve_three)
  ultimately show ?thesis
    using score_without_triple_bonus [OF h, of "number_board [- 1, - 1, - 1]" "Icon 0" 1 0] h
    by simp
qed

section \<open>Arrays by reference\<close>

text \<open>
  JavaScript passes arrays by reference, and \<^verbatim>\<open>splice\<close> and an indexed assignment change
  an array in place. What a call does to the caller's array is stated on a store: arrays
  live at addresses, \<open>fresh\<close> is the next address to be allocated, and an array literal
  or a spread allocates. The two functions that write to an array are modelled a second
  time over the store, and each is shown to compute what its value-level model computes.
\<close>

record 'a heap =
  cells :: "nat \<Rightarrow> 'a list option"
  fresh :: nat

definition load :: "'a heap \<Rightarrow> nat \<Rightarrow> 'a list" where
  "load h a = (case cells h a of None \<Rightarrow> [] | Some xs \<Rightarrow> xs)"

definition alloc :: "'a list \<Rightarrow> 'a heap \<Rightarrow> nat \<times> 'a heap" where
  "alloc xs h = (fresh h, \<lparr>cells = (cells h)(fresh h \<mapsto> xs), fresh = Suc (fresh h)\<rparr>)"

definition store :: "nat \<Rightarrow> 'a list \<Rightarrow> 'a heap \<Rightarrow> 'a heap" where
  "store a xs h = h\<lparr>cells := (cells h)(a \<mapsto> xs)\<rparr>"

text \<open>The later store keeps every array allocated in the earlier one as it was.\<close>

definition extends :: "'a heap \<Rightarrow> 'a heap \<Rightarrow> bool" where
  "extends h h' = (fresh h \<le> fresh h' \<and> (\<forall>a < fresh h. cells h' a = cells h a))"

text \<open>The later store differs from the earlier in the array at one address at most.\<close>

definition only_changes :: "nat \<Rightarrow> 'a heap \<Rightarrow> 'a heap \<Rightarrow> bool" where
  "only_changes a h h' = (fresh h' = fresh h \<and> (\<forall>b. b \<noteq> a \<longrightarrow> cells h' b = cells h b))"

subsection \<open>The resolution engine on the store\<close>

text \<open>
  \<^verbatim>\<open>const tray = [...trayIconIndices]\<close> allocates the copy; every \<^verbatim>\<open>splice\<close> writes
  to the copy; the result object refers to the copy.
\<close>

definition clear_triple_h :: "nat \<Rightarrow> icon \<Rightarrow> icon heap \<Rightarrow> icon heap" where
  "clear_triple_h tray_ref k h =
     fold (\<lambda>idx h'. store tray_ref (splice1 idx (load h' tray_ref)) h')
       (rev (sort (take 3 (iconCounts (load h tray_ref) k)))) h"

lemma load_store: "load (store a xs h) a = xs"
  by (simp add: load_def store_def)

lemma load_fold_store:
  "load (fold (\<lambda>idx h'. store a (f idx (load h' a)) h') ds h) a = fold f ds (load h a)"
  by (induction ds arbitrary: h) (simp_all add: load_store)

lemma load_clear_triple_h: "load (clear_triple_h a k h) a = clear_triple (load h a) k"
  by (simp add: clear_triple_h_def clear_triple_def load_fold_store)

function resolve_loop_h ::
  "nat \<Rightarrow> nat \<Rightarrow> int option list \<Rightarrow> icon heap \<Rightarrow> nat gresolved \<times> icon heap"
where
  "resolve_loop_h tray_ref cc ci h =
     (case first_triple (load h tray_ref) of
        None \<Rightarrow> (\<lparr>res_tray = tray_ref, clearedCount = cc, clearedIcons = ci\<rparr>, h)
      | Some k \<Rightarrow>
          resolve_loop_h tray_ref (cc + 3) (ci @ [parseInt k]) (clear_triple_h tray_ref k h))"
  by pat_completeness auto
termination
proof (relation "measure (\<lambda>(a, cc, ci, h). length (load h a))")
  show "wf (measure (\<lambda>(a, cc, ci, h). length (load h a)))" by simp
next
  fix a cc :: nat and ci :: "int option list" and h :: "icon heap" and k
  assume "first_triple (load h a) = Some k"
  then have "length (clear_triple (load h a) k) + 3 = length (load h a)"
    by (intro length_clear_triple first_triple_Some)
  then show "((a, cc + 3, ci @ [parseInt k], clear_triple_h a k h), (a, cc, ci, h))
      \<in> measure (\<lambda>(a, cc, ci, h). length (load h a))"
    by (simp add: load_clear_triple_h)
qed

definition resolveTrayTriples_h :: "nat \<Rightarrow> icon heap \<Rightarrow> nat gresolved \<times> icon heap" where
  "resolveTrayTriples_h trayIconIndices h =
     (let (tray_ref, h1) = alloc (load h trayIconIndices) h
      in resolve_loop_h tray_ref 0 [] h1)"

subsection \<open>The beam search on the store\<close>

text \<open>
  Boards are held by reference: \<^verbatim>\<open>[...initialBoard]\<close> and \<^verbatim>\<open>[...node.board]\<close>
  allocate, \<^verbatim>\<open>newBoard[slotIdx] = -1\<close> writes, every other use of a board reads. The
  collaborator is a pure function of the board's values. Trays, move paths and the
  candidate list are arrays the search builds itself from literals; they are kept as
  values.
\<close>

type_synonym ref_node = "nat gnode"
type_synonym ref_state = "nat gstate \<times> cell heap"

definition expand_slot_h :: "ref_node \<Rightarrow> nat \<Rightarrow> nat \<Rightarrow> nat \<Rightarrow> ref_state \<Rightarrow> ref_state" where
  "expand_slot_h nd remaining d slotIdx sh =
     (let st = (fst sh)\<lparr>expansions := expansions (fst sh) + 1\<rparr>;
          h = snd sh;
          iconIdx = board_get (load h (board nd)) slotIdx
      in if iconIdx = Icon (- 1) then (st, h)
      else
        let (newBoard, h1) = alloc (spread (load h (board nd))) h;
            h2 = store newBoard (board_set (load h1 newBoard) slotIdx (Icon (- 1))) h1;
            newTray = tray nd @ [iconIdx];
            res = resolveTrayTriples newTray
        in if length (res_tray res) > 7 then (st, h2)
        else
          let newRemaining = remaining_count (load h2 newBoard);
              newScore = score nd +
                scoreState (load h2 newBoard) (res_tray res) (tray nd) (int remaining)
                  (int newRemaining);
              newMoves = moves nd @ [slotIdx];
              newHash = hashState (load h2 newBoard) (res_tray res);
              pruned = (case visited st newHash of
                  None \<Rightarrow> False
                | Some (vscore, vtrayLen) \<Rightarrow>
                    vscore \<ge> newScore \<and> vtrayLen \<le> length (res_tray res))
          in if pruned then (st, h2)
          else (st\<lparr>visited := (visited st)(newHash \<mapsto> (newScore, length (res_tray res))),
                   candidates := candidates st @
                     [\<lparr>board = newBoard, tray = res_tray res, score = newScore,
                       moves = newMoves, depth = d + 1, hash = newHash\<rparr>]\<rparr>, h2))"

fun expand_slots_h :: "nat \<Rightarrow> ref_node \<Rightarrow> nat \<Rightarrow> nat \<Rightarrow> nat list \<Rightarrow> ref_state \<Rightarrow> ref_state" where
  "expand_slots_h maxExp nd remaining d [] sh = sh"
| "expand_slots_h maxExp nd remaining d (slotIdx # slots) sh =
     (if expansions (fst sh) \<ge> maxExp then sh
      else expand_slots_h maxExp nd remaining d slots (expand_slot_h nd remaining d slotIdx sh))"

fun expand_beam_h ::
  "nat \<Rightarrow> nat \<Rightarrow> (cell list \<Rightarrow> nat list) \<Rightarrow> nat \<Rightarrow> ref_node list \<Rightarrow> ref_state \<Rightarrow>
   (result + nat gstate) \<times> cell heap"
where
  "expand_beam_h bw maxExp getClickableSlots d [] sh = (Inr (fst sh), snd sh)"
| "expand_beam_h bw maxExp getClickableSlots d (nd # nds) sh =
     (if expansions (fst sh) \<ge> maxExp then (Inr (fst sh), snd sh)
      else
        let remaining = remaining_count (load (snd sh) (board nd))
        in if remaining = 0 \<and> length (tray nd) = 0 then
          (Inl (Solvable (moves nd)
            \<lparr>expansionsUsed = expansions (fst sh), bestScore = Some (score nd),
             stats_beamWidth = bw, stats_depth = Some d\<rparr>), snd sh)
        else expand_beam_h bw maxExp getClickableSlots d nds
          (expand_slots_h maxExp nd remaining d (getClickableSlots (load (snd sh) (board nd))) sh))"

type_synonym ref_frontier = "ref_node list \<times> (string \<rightharpoonup> int \<times> nat) \<times> nat"

definition level_h ::
  "nat \<Rightarrow> nat \<Rightarrow> (cell list \<Rightarrow> nat list) \<Rightarrow> nat \<Rightarrow> ref_frontier \<Rightarrow> cell heap \<Rightarrow>
   (result + ref_frontier) \<times> cell heap"
where
  "level_h bw maxExp getClickableSlots d fr h =
     (case fr of (beam, vis, ex) \<Rightarrow>
        (case expand_beam_h bw maxExp getClickableSlots d beam
                (\<lparr>candidates = [], visited = vis, expansions = ex\<rparr>, h) of
           (Inl r, h') \<Rightarrow> (Inl r, h')
         | (Inr st, h') \<Rightarrow>
             (Inr (take bw (sort_key (\<lambda>n. - score n) (candidates st)),
                   visited st, expansions st), h')))"

function search_loop_h ::
  "nat \<Rightarrow> nat \<Rightarrow> nat \<Rightarrow> (cell list \<Rightarrow> nat list) \<Rightarrow> nat \<Rightarrow> ref_frontier \<Rightarrow> cell heap \<Rightarrow>
   result \<times> cell heap"
where
  "search_loop_h bw maxExp maxD getClickableSlots d fr h =
     (if d < maxD \<and> fst fr \<noteq> [] then
        (case level_h bw maxExp getClickableSlots d fr h of
           (Inl r, h') \<Rightarrow> (r, h')
         | (Inr fr', h') \<Rightarrow> search_loop_h bw maxExp maxD getClickableSlots (d + 1) fr' h')
      else
        (Unsolvable
          \<lparr>expansionsUsed = snd (snd fr),
           bestScore = (if fst fr \<noteq> [] then Some (score (hd (fst fr))) else None),
           stats_beamWidth = bw, stats_depth = None\<rparr>, h))"
  by pat_completeness auto
termination
  by (relation "measure (\<lambda>(bw, maxExp, maxD, g, d, fr, h). maxD - d)") auto

definition beamSearchSolve_h ::
  "nat \<Rightarrow> (cell list \<Rightarrow> nat list) \<Rightarrow> params \<Rightarrow> cell heap \<Rightarrow> result \<times> cell heap"
where
  "beamSearchSolve_h initialBoard getClickableSlots ps h =
     (let (b, h1) = alloc (spread (load h initialBoard)) h;
          initialNode = \<lparr>board = b, tray = [], score = 0, moves = [], depth = 0,
                         hash = hashState (load h1 initialBoard) []\<rparr>
      in search_loop_h (or_default (beamWidth ps) SOLVER_BEAM_WIDTH)
           (or_default (maxExpansions ps) SOLVER_MAX_EXPANSIONS)
           (or_default (maxDepth ps) SOLVER_MAX_DEPTH)
           getClickableSlots 0 ([initialNode], [hash initialNode \<mapsto> (0, 0)], 0) h1)"

definition isSolvable_h ::
  "nat \<Rightarrow> (cell list \<Rightarrow> nat list) \<Rightarrow> params \<Rightarrow> cell heap \<Rightarrow> result \<times> cell heap"
where
  "isSolvable_h initialBoardAssignment getClickableSlotIndices ps h =
     beamSearchSolve_h initialBoardAssignment getClickableSlotIndices ps h"

subsection \<open>The store-level models compute the value-level ones\<close>

text \<open>A node, a loop state and a frontier with each board reference read in the store.\<close>

definition abs_node :: "cell heap \<Rightarrow> ref_node \<Rightarrow> node" where
  "abs_node h nd =
     \<lparr>board = load h (board nd), tray = tray nd, score = score nd, moves = moves nd,
      depth = depth nd, hash = hash nd\<rparr>"

definition abs_state :: "cell heap \<Rightarrow> nat gstate \<Rightarrow> search_state" where
  "abs_state h st =
     \<lparr>candidates = map (abs_node h) (candidates st), visited = visited st,
      expansions = expansions st\<rparr>"

definition refs_ok :: "cell heap \<Rightarrow> ref_node list \<Rightarrow> bool" where
  "refs_ok h nds = (\<forall>nd\<in>set nds. board nd < fresh h)"

definition abs_frontier :: "cell heap \<Rightarrow> ref_frontier \<Rightarrow> frontier" where
  "abs_frontier h fr = (map (abs_node h) (fst fr), snd fr)"

lemma extends_refl: "extends h h"
  by (simp add: extends_def)

lemma extends_trans: "extends h h1 \<Longrightarrow> extends h1 h2 \<Longrightarrow> extends h h2"
  by (auto simp: extends_def)

lemma extends_load: "extends h h' \<Longrightarrow> a < fresh h \<Longrightarrow> load h' a = load h a"
  by (simp add: extends_def load_def)

lemma only_changes_fold_store:
  "only_changes a h (fold (\<lambda>idx h'. store a (f idx (load h' a)) h') ds h)"
  by (induction ds arbitrary: h) (auto simp: only_changes_def store_def)

lemma only_changes_clear_triple_h: "only_changes a h (clear_triple_h a k h)"
  unfolding clear_triple_h_def by (rule only_changes_fold_store)

lemma resolve_loop_h_sim:
  "only_changes a h (snd (resolve_loop_h a cc ci h)) \<and>
   res_tray (fst (resolve_loop_h a cc ci h)) = a \<and>
   load (snd (resolve_loop_h a cc ci h)) a = res_tray (resolve_loop (load h a) cc ci) \<and>
   clearedCount (fst (resolve_loop_h a cc ci h)) = clearedCount (resolve_loop (load h a) cc ci) \<and>
   clearedIcons (fst (resolve_loop_h a cc ci h)) = clearedIcons (resolve_loop (load h a) cc ci)"
proof (induction a cc ci h rule: resolve_loop_h.induct)
  case (1 a cc ci h)
  show ?case
  proof (cases "first_triple (load h a)")
    case None
    then show ?thesis by (simp add: only_changes_def)
  next
    case (Some k)
    let ?h = "clear_triple_h a k h"
    have ih: "only_changes a ?h (snd (resolve_loop_h a (cc + 3) (ci @ [parseInt k]) ?h)) \<and>
      res_tray (fst (resolve_loop_h a (cc + 3) (ci @ [parseInt k]) ?h)) = a \<and>
      load (snd (resolve_loop_h a (cc + 3) (ci @ [parseInt k]) ?h)) a
        = res_tray (resolve_loop (load ?h a) (cc + 3) (ci @ [parseInt k])) \<and>
      clearedCount (fst (resolve_loop_h a (cc + 3) (ci @ [parseInt k]) ?h))
        = clearedCount (resolve_loop (load ?h a) (cc + 3) (ci @ [parseInt k])) \<and>
      clearedIcons (fst (resolve_loop_h a (cc + 3) (ci @ [parseInt k]) ?h))
        = clearedIcons (resolve_loop (load ?h a) (cc + 3) (ci @ [parseInt k]))"
      using Some by (rule "1.IH")
    have oc: "only_changes a h (snd (resolve_loop_h a (cc + 3) (ci @ [parseInt k]) ?h))"
      using only_changes_clear_triple_h [of a h k] ih by (auto simp: only_changes_def)
    have uh: "resolve_loop_h a cc ci h = resolve_loop_h a (cc + 3) (ci @ [parseInt k]) ?h"
      using Some by simp
    have up: "resolve_loop (load h a) cc ci
        = resolve_loop (load ?h a) (cc + 3) (ci @ [parseInt k])"
      using Some by (simp add: load_clear_triple_h)
    show ?thesis unfolding uh up using ih oc by blast
  qed
qed

lemma resolve_leaves_argument:
  assumes "trayIconIndices < fresh h"
  shows "cells (snd (resolveTrayTriples_h trayIconIndices h)) trayIconIndices
           = cells h trayIconIndices \<and>
         extends h (snd (resolveTrayTriples_h trayIconIndices h)) \<and>
         load (snd (resolveTrayTriples_h trayIconIndices h))
              (res_tray (fst (resolveTrayTriples_h trayIconIndices h)))
           = res_tray (resolveTrayTriples (load h trayIconIndices)) \<and>
         clearedCount (fst (resolveTrayTriples_h trayIconIndices h))
           = clearedCount (resolveTrayTriples (load h trayIconIndices)) \<and>
         clearedIcons (fst (resolveTrayTriples_h trayIconIndices h))
           = clearedIcons (resolveTrayTriples (load h trayIconIndices))"
proof -
  let ?h1 = "snd (alloc (load h trayIconIndices) h)"
  let ?a = "fresh h"
  have run: "resolveTrayTriples_h trayIconIndices h = resolve_loop_h ?a 0 [] ?h1"
    by (simp add: resolveTrayTriples_h_def alloc_def)
  have l1: "load ?h1 ?a = load h trayIconIndices"
    by (simp add: alloc_def load_def)
  note sim = resolve_loop_h_sim [of ?a ?h1 0 "[]"]
  have "extends h (snd (resolve_loop_h ?a 0 [] ?h1))"
    using sim by (auto simp: only_changes_def extends_def alloc_def)
  then show ?thesis
    unfolding run using sim l1 assms
    by (simp add: resolveTrayTriples_def extends_def)
qed

lemma abs_node_sel:
  "board (abs_node h nd) = load h (board nd)" "tray (abs_node h nd) = tray nd"
  "score (abs_node h nd) = score nd" "moves (abs_node h nd) = moves nd"
  by (simp_all add: abs_node_def)

lemma abs_node_extends:
  "extends h h' \<Longrightarrow> board nd < fresh h \<Longrightarrow> abs_node h' nd = abs_node h nd"
  by (simp add: abs_node_def extends_load)

lemma map_abs_node_extends:
  "extends h h' \<Longrightarrow> refs_ok h nds \<Longrightarrow> map (abs_node h') nds = map (abs_node h) nds"
  by (simp add: refs_ok_def abs_node_extends)

lemma refs_ok_extends: "extends h h' \<Longrightarrow> refs_ok h nds \<Longrightarrow> refs_ok h' nds"
  by (auto simp: refs_ok_def extends_def)

lemma expand_slot_h_sim:
  assumes "board nd < fresh h" and "refs_ok h (candidates st)"
  shows "extends h (snd (expand_slot_h nd r d s (st, h))) \<and>
         refs_ok (snd (expand_slot_h nd r d s (st, h))) (candidates (fst (expand_slot_h nd r d s (st, h)))) \<and>
         abs_state (snd (expand_slot_h nd r d s (st, h))) (fst (expand_slot_h nd r d s (st, h)))
           = expand_slot (abs_node h nd) r d s (abs_state h st)"
proof -
  let ?h1 = "snd (alloc (spread (load h (board nd))) h)"
  let ?a = "fresh h"
  let ?h2 = "store ?a (board_set (load ?h1 ?a) s (Icon (- 1))) ?h1"
  have e2: "extends h ?h2" by (simp add: extends_def alloc_def store_def)
  have l2: "load ?h2 ?a = board_set (spread (load h (board nd))) s (Icon (- 1))"
    by (simp add: alloc_def store_def load_def)
  have f2: "?a < fresh ?h2" by (simp add: alloc_def store_def)
  have m2: "map (abs_node ?h2) (candidates st) = map (abs_node h) (candidates st)"
    using e2 assms(2) by (rule map_abs_node_extends)
  have r2: "refs_ok ?h2 (candidates st)" using e2 assms(2) by (rule refs_ok_extends)
  show ?thesis
    using e2 l2 f2 m2 r2 assms
    by (auto simp: expand_slot_h_def expand_slot_def Let_def abs_state_def abs_node_def
        alloc_def extends_refl refs_ok_def split: option.splits)
qed


lemma expand_slots_h_sim:
  assumes "board nd < fresh h" and "refs_ok h (candidates st)"
  shows "extends h (snd (expand_slots_h m nd r d slots (st, h))) \<and>
         refs_ok (snd (expand_slots_h m nd r d slots (st, h)))
           (candidates (fst (expand_slots_h m nd r d slots (st, h)))) \<and>
         abs_state (snd (expand_slots_h m nd r d slots (st, h)))
           (fst (expand_slots_h m nd r d slots (st, h)))
           = expand_slots m (abs_node h nd) r d slots (abs_state h st)"
  using assms
proof (induction slots arbitrary: st h)
  case Nil
  then show ?case by (simp add: extends_refl)
next
  case (Cons s slots)
  show ?case
  proof (cases "expansions st \<ge> m")
    case True
    then show ?thesis using Cons.prems by (simp add: extends_refl abs_state_def)
  next
    case False
    obtain st1 h1 where step: "expand_slot_h nd r d s (st, h) = (st1, h1)"
      by (cases "expand_slot_h nd r d s (st, h)") auto
    have s1: "extends h h1" "refs_ok h1 (candidates st1)"
      "abs_state h1 st1 = expand_slot (abs_node h nd) r d s (abs_state h st)"
      using expand_slot_h_sim [OF Cons.prems, of r d s] step by simp_all
    have nd1: "board nd < fresh h1" using s1(1) Cons.prems(1) by (simp add: extends_def)
    have an: "abs_node h1 nd = abs_node h nd"
      using s1(1) Cons.prems(1) by (rule abs_node_extends)
    have ih: "extends h1 (snd (expand_slots_h m nd r d slots (st1, h1))) \<and>
         refs_ok (snd (expand_slots_h m nd r d slots (st1, h1)))
           (candidates (fst (expand_slots_h m nd r d slots (st1, h1)))) \<and>
         abs_state (snd (expand_slots_h m nd r d slots (st1, h1)))
           (fst (expand_slots_h m nd r d slots (st1, h1)))
           = expand_slots m (abs_node h1 nd) r d slots (abs_state h1 st1)"
      using nd1 s1(2) by (rule Cons.IH)
    have "extends h (snd (expand_slots_h m nd r d slots (st1, h1)))"
      using s1(1) ih by (blast intro: extends_trans)
    then show ?thesis
      using False ih step s1(3) an by (simp add: abs_state_def)
  qed
qed

lemma expand_beam_h_sim:
  assumes "refs_ok h beam" and "refs_ok h (candidates st)"
  shows "extends h (snd (expand_beam_h bw m g d beam (st, h))) \<and>
         (case fst (expand_beam_h bw m g d beam (st, h)) of
            Inl res \<Rightarrow> expand_beam bw m g d (map (abs_node h) beam) (abs_state h st) = Inl res
          | Inr st' \<Rightarrow>
              refs_ok (snd (expand_beam_h bw m g d beam (st, h))) (candidates st') \<and>
              expand_beam bw m g d (map (abs_node h) beam) (abs_state h st)
                = Inr (abs_state (snd (expand_beam_h bw m g d beam (st, h))) st'))"
  using assms
proof (induction beam arbitrary: st h)
  case Nil
  then show ?case by (simp add: extends_refl)
next
  case (Cons nd nds)
  have ex: "expansions (abs_state h st) = expansions st" by (simp add: abs_state_def)
  show ?case
  proof (cases "expansions st \<ge> m")
    case True
    then show ?thesis using Cons.prems ex by (simp add: extends_refl)
  next
    case budget: False
    have sol: "solved (abs_node h nd) \<longleftrightarrow>
        remaining_count (load h (board nd)) = 0 \<and> length (tray nd) = 0"
      by (simp add: solved_def abs_node_def)
    show ?thesis
    proof (cases "solved (abs_node h nd)")
      case True
      then show ?thesis using budget ex sol
        by (simp add: extends_refl abs_node_def Let_def)
    next
      case False
      let ?r = "remaining_count (load h (board nd))"
      let ?slots = "g (load h (board nd))"
      obtain st1 h1 where step: "expand_slots_h m nd ?r d ?slots (st, h) = (st1, h1)"
        by (cases "expand_slots_h m nd ?r d ?slots (st, h)") auto
      have ndok: "board nd < fresh h" using Cons.prems(1) by (simp add: refs_ok_def)
      have s1: "extends h h1" "refs_ok h1 (candidates st1)"
        "abs_state h1 st1 = expand_slots m (abs_node h nd) ?r d ?slots (abs_state h st)"
        using expand_slots_h_sim [OF ndok Cons.prems(2), of m ?r d ?slots] step by simp_all
      have nds: "refs_ok h nds" using Cons.prems(1) by (simp add: refs_ok_def)
      have nds1: "refs_ok h1 nds" using s1(1) nds by (rule refs_ok_extends)
      have mp: "map (abs_node h1) nds = map (abs_node h) nds"
        using s1(1) nds by (rule map_abs_node_extends)
      have ih: "extends h1 (snd (expand_beam_h bw m g d nds (st1, h1))) \<and>
         (case fst (expand_beam_h bw m g d nds (st1, h1)) of
            Inl res \<Rightarrow> expand_beam bw m g d (map (abs_node h1) nds) (abs_state h1 st1) = Inl res
          | Inr st' \<Rightarrow>
              refs_ok (snd (expand_beam_h bw m g d nds (st1, h1))) (candidates st') \<and>
              expand_beam bw m g d (map (abs_node h1) nds) (abs_state h1 st1)
                = Inr (abs_state (snd (expand_beam_h bw m g d nds (st1, h1))) st'))"
        using nds1 s1(2) by (rule Cons.IH)
      have ns: "\<not> (remaining_count (load h (board nd)) = 0 \<and> length (tray nd) = 0)"
        using False sol by simp
      have unfold_h: "expand_beam_h bw m g d (nd # nds) (st, h) = expand_beam_h bw m g d nds (st1, h1)"
        using budget ns step by (auto simp: Let_def)
      have unfold_p: "expand_beam bw m g d (map (abs_node h) (nd # nds)) (abs_state h st)
          = expand_beam bw m g d (map (abs_node h1) nds) (abs_state h1 st1)"
        using budget False ex by (simp add: abs_node_sel s1(3) mp)
      have "extends h (snd (expand_beam_h bw m g d nds (st1, h1)))"
        using s1(1) ih by (blast intro: extends_trans)
      then show ?thesis
        using ih unfolding unfold_h unfold_p by simp
    qed
  qed
qed

lemma map_insort_key:
  "map f (insort_key (\<lambda>x. k (f x)) x xs) = insort_key k (f x) (map f xs)"
  by (induction xs) simp_all

lemma map_sort_key:
  "map f (sort_key (\<lambda>x. k (f x)) xs) = sort_key k (map f xs)"
  by (induction xs) (simp_all add: map_insort_key)

lemma abs_beam:
  "map (abs_node h) (take bw (sort_key (\<lambda>n. - score n) nds))
     = take bw (sort_key (\<lambda>n. - score n) (map (abs_node h) nds))"
proof -
  have "(\<lambda>n. - score n) = (\<lambda>n. - score (abs_node h n))"
    by (simp add: abs_node_def)
  then have "map (abs_node h) (sort_key (\<lambda>n. - score n) nds)
      = sort_key (\<lambda>n. - score n) (map (abs_node h) nds)"
    using map_sort_key [of "abs_node h" "\<lambda>n. - score n" nds] by simp
  moreover have "map (abs_node h) (take bw (sort_key (\<lambda>n. - score n) nds))
      = take bw (map (abs_node h) (sort_key (\<lambda>n. - score n) nds))"
    by (simp add: take_map)
  ultimately show ?thesis by simp
qed

lemma level_h_sim:
  assumes "refs_ok h (fst fr)"
  shows "extends h (snd (level_h bw m g d fr h)) \<and>
         (case fst (level_h bw m g d fr h) of
            Inl res \<Rightarrow> level bw m g d (abs_frontier h fr) = Inl res
          | Inr fr' \<Rightarrow>
              refs_ok (snd (level_h bw m g d fr h)) (fst fr') \<and>
              level bw m g d (abs_frontier h fr)
                = Inr (abs_frontier (snd (level_h bw m g d fr h)) fr'))"
proof -
  obtain beam vis ex where fr: "fr = (beam, vis, ex)" by (cases fr) auto
  let ?st = "\<lparr>candidates = [], visited = vis, expansions = ex\<rparr> :: nat gstate"
  obtain res h' where eb: "expand_beam_h bw m g d beam (?st, h) = (res, h')"
    by (cases "expand_beam_h bw m g d beam (?st, h)") auto
  have "refs_ok h (candidates ?st)" by (simp add: refs_ok_def)
  moreover have "refs_ok h beam" using assms fr by simp
  ultimately have sim: "extends h h' \<and>
         (case res of
            Inl r \<Rightarrow> expand_beam bw m g d (map (abs_node h) beam) (abs_state h ?st) = Inl r
          | Inr st' \<Rightarrow> refs_ok h' (candidates st') \<and>
              expand_beam bw m g d (map (abs_node h) beam) (abs_state h ?st)
                = Inr (abs_state h' st'))"
    using expand_beam_h_sim [of h beam ?st bw m g d] unfolding eb by (cases res) simp_all
  have a0: "abs_state h ?st = \<lparr>candidates = [], visited = vis, expansions = ex\<rparr>"
    by (simp add: abs_state_def)
  show ?thesis
  proof (cases res)
    case (Inl r)
    then show ?thesis using sim eb fr a0
      by (simp add: level_h_def level_def abs_frontier_def)
  next
    case (Inr st')
    have "refs_ok h' (take bw (sort_key (\<lambda>n. - score n) (candidates st')))"
      using sim Inr by (auto simp: refs_ok_def dest: in_set_takeD)
    then show ?thesis using sim eb fr a0 Inr
      by (simp add: level_h_def level_def abs_frontier_def abs_beam abs_state_def)
  qed
qed

lemma search_loop_h_stop:
  assumes "\<not> (d < md \<and> fst fr \<noteq> [])"
  shows "extends h (snd (search_loop_h bw m md g d fr h)) \<and>
         fst (search_loop_h bw m md g d fr h) = search_loop bw m md g d (abs_frontier h fr)"
proof (cases "fst fr")
  case Nil
  then show ?thesis by (simp add: extends_refl abs_frontier_def)
next
  case (Cons nd nds)
  then show ?thesis using assms
    by (simp add: extends_refl abs_frontier_def abs_node_sel)
qed

lemma search_loop_h_sim:
  assumes "refs_ok h (fst fr)"
  shows "extends h (snd (search_loop_h bw m md g d fr h)) \<and>
         fst (search_loop_h bw m md g d fr h) = search_loop bw m md g d (abs_frontier h fr)"
  using assms
proof (induction "md - d" arbitrary: d fr h)
  case 0
  then have "\<not> (d < md \<and> fst fr \<noteq> [])" by simp
  then show ?case by (rule search_loop_h_stop)
next
  case (Suc n)
  show ?case
  proof (cases "d < md \<and> fst fr \<noteq> []")
    case False
    then show ?thesis by (rule search_loop_h_stop)
  next
    case True
    then have run: "d < md \<and> fst (abs_frontier h fr) \<noteq> []"
      by (simp add: abs_frontier_def)
    obtain res h' where lv: "level_h bw m g d fr h = (res, h')"
      by (cases "level_h bw m g d fr h") auto
    have sim: "extends h h' \<and>
         (case res of
            Inl r \<Rightarrow> level bw m g d (abs_frontier h fr) = Inl r
          | Inr fr' \<Rightarrow> refs_ok h' (fst fr') \<and>
              level bw m g d (abs_frontier h fr) = Inr (abs_frontier h' fr'))"
      using level_h_sim [OF Suc.prems, of bw m g d] unfolding lv by (cases res) simp_all
    show ?thesis
    proof (cases res)
      case (Inl r)
      then show ?thesis using sim lv True run by simp
    next
      case (Inr fr')
      have "n = md - (d + 1)" using Suc.hyps(2) by simp
      moreover have "refs_ok h' (fst fr')" using sim Inr by simp
      ultimately have ih: "extends h' (snd (search_loop_h bw m md g (d + 1) fr' h')) \<and>
         fst (search_loop_h bw m md g (d + 1) fr' h')
           = search_loop bw m md g (d + 1) (abs_frontier h' fr')"
        using Suc.hyps(1) by blast
      have "extends h (snd (search_loop_h bw m md g (d + 1) fr' h'))"
        using sim ih by (blast intro: extends_trans)
      then show ?thesis using sim lv True run Inr ih by simp
    qed
  qed
qed

text \<open>
  Claim C8. The resolution engine terminates on every tray (\<^const>\<open>resolve_loop\<close>,
  \<^const>\<open>resolve_passes\<close> and \<^const>\<open>resolve_loop_h\<close> are total functions): a pass that acts
  shortens the tray by exactly 3, there are at most \<open>\<lfloor>len/3\<rfloor>\<close> clearing passes, and the
  count returned is three times their number. It is pure: called on an allocated array,
  it leaves that array, and every other array allocated before the call, as it was, and
  its result is a function of the argument's contents alone.
\<close>

theorem resolution_terminates:
  "resolve_passes t \<le> length t div 3 \<and>
   clearedCount (resolveTrayTriples t) = 3 * resolve_passes t \<and>
   length (res_tray (resolveTrayTriples t)) + 3 * resolve_passes t = length t \<and>
   (\<forall>k. first_triple t = Some k \<longrightarrow> length (clear_triple t k) + 3 = length t) \<and>
   (trayIconIndices < fresh h \<longrightarrow>
      cells (snd (resolveTrayTriples_h trayIconIndices h)) trayIconIndices
        = cells h trayIconIndices \<and>
      extends h (snd (resolveTrayTriples_h trayIconIndices h)) \<and>
      load (snd (resolveTrayTriples_h trayIconIndices h))
           (res_tray (fst (resolveTrayTriples_h trayIconIndices h)))
        = res_tray (resolveTrayTriples (load h trayIconIndices)) \<and>
      clearedCount (fst (resolveTrayTriples_h trayIconIndices h))
        = clearedCount (resolveTrayTriples (load h trayIconIndices)) \<and>
      clearedIcons (fst (resolveTrayTriples_h trayIconIndices h))
        = clearedIcons (resolveTrayTriples (load h trayIconIndices)))"
  using resolve_passes_bound [of t] resolve_leaves_argument [of trayIconIndices h]
  by blast

theorem resolution_terminates_witness:
  "resolve_passes [Icon 1, Icon 0, Icon 1, Icon 0, Icon 1, Icon 0, Icon 2] = 2 \<and>
   first_triple [Icon 1, Icon 0, Icon 1, Icon 0, Icon 1, Icon 0, Icon 2] = Some (Icon 0) \<and>
   length (clear_triple [Icon 1, Icon 0, Icon 1, Icon 0, Icon 1, Icon 0, Icon 2] (Icon 0)) + 3 = 7 \<and>
   res_tray (resolveTrayTriples [Icon 1, Icon 0, Icon 1, Icon 0, Icon 1, Icon 0, Icon 2]) = [Icon 2] \<and>
   cells (snd (resolveTrayTriples_h 0
       \<lparr>cells = [0 \<mapsto> [Icon 1, Icon 0, Icon 1, Icon 0, Icon 1, Icon 0, Icon 2]], fresh = 1\<rparr>)) 0
     = Some [Icon 1, Icon 0, Icon 1, Icon 0, Icon 1, Icon 0, Icon 2] \<and>
   load (snd (resolveTrayTriples_h 0
       \<lparr>cells = [0 \<mapsto> [Icon 1, Icon 0, Icon 1, Icon 0, Icon 1, Icon 0, Icon 2]], fresh = 1\<rparr>))
     (res_tray (fst (resolveTrayTriples_h 0
       \<lparr>cells = [0 \<mapsto> [Icon 1, Icon 0, Icon 1, Icon 0, Icon 1, Icon 0, Icon 2]], fresh = 1\<rparr>)))
     = [Icon 2]"
proof -
  let ?t = "[Icon 1, Icon 0, Icon 1, Icon 0, Icon 1, Icon 0, Icon 2]"
  let ?h = "\<lparr>cells = [0 \<mapsto> ?t], fresh = 1\<rparr> :: icon heap"
  have ft: "first_triple ?t = Some (Icon 0)" by code_simp
  have rp: "resolve_passes ?t = 2" by code_simp
  have rt: "res_tray (resolveTrayTriples ?t) = [Icon 2]" by code_simp
  have al: "(0::nat) < fresh ?h" by simp
  have ld: "load ?h 0 = ?t" by (simp add: load_def)
  show ?thesis
    using resolution_terminates [of ?t 0 ?h] ft rp rt al ld by simp
qed

text \<open>
  Claim C10. A call of \<^const>\<open>isSolvable_h\<close> on an allocated board array leaves that
  array (and every array allocated before the call) as it was: the search allocates
  copies and writes to the copy it has just made. The call returns what the value-level
  search returns on the board's contents.
\<close>

theorem initial_board_unchanged:
  assumes "initialBoard < fresh h"
  shows "cells (snd (isSolvable_h initialBoard g ps h)) initialBoard = cells h initialBoard \<and>
         extends h (snd (isSolvable_h initialBoard g ps h)) \<and>
         fst (isSolvable_h initialBoard g ps h) = isSolvable (load h initialBoard) g ps"
proof -
  let ?h1 = "snd (alloc (spread (load h initialBoard)) h)"
  let ?nd = "\<lparr>board = fresh h, tray = [], score = 0, moves = [], depth = 0,
               hash = hashState (load ?h1 initialBoard) []\<rparr> :: ref_node"
  let ?fr = "([?nd], [hash ?nd \<mapsto> (0, 0)], 0) :: ref_frontier"
  have e1: "extends h ?h1" by (simp add: extends_def alloc_def)
  have l1: "load ?h1 initialBoard = load h initialBoard"
    using e1 assms by (rule extends_load)
  have ok: "refs_ok ?h1 (fst ?fr)" by (simp add: refs_ok_def alloc_def)
  have af: "abs_frontier ?h1 ?fr = initial_frontier (load h initialBoard)"
    by (simp add: abs_frontier_def abs_node_def initial_frontier_def initialNode_def l1)
      (simp add: alloc_def load_def)
  note sim = search_loop_h_sim [OF ok, of "or_default (beamWidth ps) SOLVER_BEAM_WIDTH"
      "or_default (maxExpansions ps) SOLVER_MAX_EXPANSIONS"
      "or_default (maxDepth ps) SOLVER_MAX_DEPTH" g 0]
  have run: "isSolvable_h initialBoard g ps h =
      search_loop_h (or_default (beamWidth ps) SOLVER_BEAM_WIDTH)
        (or_default (maxExpansions ps) SOLVER_MAX_EXPANSIONS)
        (or_default (maxDepth ps) SOLVER_MAX_DEPTH) g 0 ?fr ?h1"
    by (simp add: isSolvable_h_def beamSearchSolve_h_def alloc_def Let_def)
  have ext: "extends h (snd (isSolvable_h initialBoard g ps h))"
    unfolding run using e1 sim by (blast intro: extends_trans)
  have res: "fst (isSolvable_h initialBoard g ps h) = isSolvable (load h initialBoard) g ps"
    unfolding run using sim af by (simp add: isSolvable_def beamSearchSolve_def)
  show ?thesis using ext res assms by (simp add: extends_def)
qed

theorem initial_board_unchanged_witness:
  "cells (snd (isSolvable_h 0 all_positions default_params
       \<lparr>cells = [0 \<mapsto> number_board [0, 0, 0]], fresh = 1\<rparr>)) 0
     = Some (number_board [0, 0, 0]) \<and>
   fst (isSolvable_h 0 all_positions default_params
       \<lparr>cells = [0 \<mapsto> number_board [0, 0, 0]], fresh = 1\<rparr>)
     = Solvable [0, 1, 2]
         \<lparr>expansionsUsed = 21, bestScore = Some 10, stats_beamWidth = 100, stats_depth = Some 3\<rparr>"
proof -
  let ?h = "\<lparr>cells = [0 \<mapsto> number_board [0, 0, 0]], fresh = 1\<rparr> :: cell heap"
  have al: "(0::nat) < fresh ?h" by simp
  have ld: "load ?h 0 = number_board [0, 0, 0]" by (simp add: load_def)
  show ?thesis
    using initial_board_unchanged [OF al, of all_positions default_params] ld run_three_equal
    by simp
qed

end
